theory Spec2Isabelle
  imports Main "HOL-Library.Word" "HOL-Library.Sublist"
begin

section \<open>Data model (memory_scanner.hpp)\<close>

text \<open>
  \<open>IntPtr\<close> is \<open>ULONG_PTR\<close>; the program only builds in 64 bit mode
  (\<open>static_assert(sizeof(void *) == 8)\<close>), so addresses and lengths are 64-bit words and
  their arithmetic wraps. A buffer of \<open>char\<close> is a list of bytes.
\<close>

type_synonym IntPtr = "64 word"
type_synonym DWORD = "32 word"
type_synonym byte = "8 word"

text \<open>
  \<open>class MemoryRegion\<close>: \<open>data\<close> is the owned buffer (\<open>nullptr\<close> is the empty list).
  The field \<open>length\<close> is written \<open>length_mr\<close>.
\<close>

record MemoryRegion =
  base_address :: IntPtr
  length_mr :: IntPtr
  data :: "byte list"

definition ContainsAddress :: "MemoryRegion \<Rightarrow> IntPtr \<Rightarrow> bool" where
  "ContainsAddress mr address \<longleftrightarrow>
     address \<ge> base_address mr \<and> address < base_address mr + length_mr mr"

text \<open>
  \<open>MemoryObject<T>\<close>: the held \<open>value\<close> is kept as its object representation, the
  \<open>sizeof(T)\<close> bytes that \<open>ReRead\<close> writes through \<open>reinterpret_cast<char *>(&value)\<close>.
\<close>

record MemoryObject =
  address :: IntPtr
  value_mo :: "byte list"

text \<open>
  \<open>FilterFn<T>\<close>: a predicate on the previous and the current value, each given as the
  \<open>sizeof(T)\<close> bytes of the slot. The template parameter \<open>T\<close> enters the functions
  below as \<open>W = sizeof(T)\<close>, a positive number of bytes.
\<close>

type_synonym FilterFn = "byte list \<Rightarrow> byte list \<Rightarrow> bool"

text \<open>
  The throw sites of the library, as values: \<open>ReadFailure\<close> is "Cannot read process
  memory" with the error code and the address, \<open>ShortRead\<close> is "Bytes read differs from
  region size" and "Bytes read differs from memory object size", \<open>QueryFailure\<close> is
  "Cannot VirtualQueryEx process" with the error code. \<open>OutOfRange\<close> stands for an
  access behind the end of a buffer, which C++ leaves undefined. A call that throws is
  \<open>Inl\<close> of the error; a call that returns is \<open>Inr\<close> of what it returns together with
  its in-out arguments as it leaves them.
\<close>

datatype error =
    ReadFailure DWORD IntPtr
  | ShortRead
  | QueryFailure DWORD
  | OutOfRange

section \<open>The host primitives\<close>

text \<open>Constants of \<open>Windows.h\<close>.\<close>

definition ERROR_PARTIAL_COPY :: DWORD where "ERROR_PARTIAL_COPY = 299"
definition ERROR_INVALID_PARAMETER :: DWORD where "ERROR_INVALID_PARAMETER = 87"
definition MEM_COMMIT :: DWORD where "MEM_COMMIT = 0x1000"
definition PAGE_READWRITE :: DWORD where "PAGE_READWRITE = 0x04"
definition PAGE_EXECUTE_READWRITE :: DWORD where "PAGE_EXECUTE_READWRITE = 0x40"

text \<open>
  What one call of \<open>ReadProcessMemory\<close> delivers: the \<open>BOOL\<close> it returns, the value
  of \<open>GetLastError()\<close> after it, and the bytes it copied into the buffer (their number is
  \<open>*lpNumberOfBytesRead\<close>).
\<close>

record rpm_result =
  rpm_ok :: bool
  rpm_last_error :: DWORD
  rpm_copied :: "byte list"

record MEMORY_BASIC_INFORMATION =
  BaseAddress :: IntPtr
  RegionSize :: IntPtr
  State :: DWORD
  Protect :: DWORD

text \<open>
  \<open>VirtualQueryEx\<close> returns 0 and sets the last error, or fills \<open>mem_info\<close>.
\<close>

datatype vq_result = VQ_Fail DWORD | VQ_Ok MEMORY_BASIC_INFORMATION

text \<open>
  The target process behind the \<open>HANDLE\<close>: what a read of \<open>n\<close> bytes at an address
  delivers, what a query at an address delivers, and the log of the reads made so far
  (address and size of each call, oldest first). During one call of the library the answer
  to a read is a function of the address and the size requested; another call can be given
  another process value.
\<close>

record process =
  memory :: "IntPtr \<Rightarrow> nat \<Rightarrow> rpm_result"
  query :: "IntPtr \<Rightarrow> vq_result"
  reads :: "(IntPtr \<times> nat) list"

text \<open>
  \<open>ReadProcessMemory(process, address, buffer, n, &bytes_read)\<close>: never more than
  \<open>n\<close> bytes are copied.
\<close>

definition ReadProcessMemory :: "process \<Rightarrow> IntPtr \<Rightarrow> nat \<Rightarrow> (bool \<times> DWORD \<times> byte list) \<times> process" where
  "ReadProcessMemory p addr n =
     (let res = memory p addr n
      in ((rpm_ok res, rpm_last_error res, take n (rpm_copied res)),
          p\<lparr>reads := reads p @ [(addr, n)]\<rparr>))"

definition VirtualQueryEx :: "process \<Rightarrow> IntPtr \<Rightarrow> vq_result" where
  "VirtualQueryEx p addr = query p addr"

section \<open>ReadRegionData and MemoryObject::ReRead\<close>

text \<open>
  \<open>ReadRegionData\<close>: \<open>std::make_unique<char[]>(length)\<close> gives a zeroed buffer, the
  read overwrites its first \<open>bytes_read\<close> bytes. A failed read throws unless the error
  code is \<open>ERROR_PARTIAL_COPY\<close>. Returns \<open>bytes_read\<close> with the region and the process.
\<close>

definition ReadRegionData :: "process \<Rightarrow> MemoryRegion \<Rightarrow> error + (nat \<times> MemoryRegion \<times> process)" where
  "ReadRegionData p memory_region =
     (let n = unat (length_mr memory_region);
          addr = base_address memory_region
      in case ReadProcessMemory p addr n of
           ((ok, ec, bytes), p') \<Rightarrow>
             if \<not> ok \<and> ec \<noteq> ERROR_PARTIAL_COPY then Inl (ReadFailure ec addr)
             else Inr (length bytes,
                       memory_region\<lparr>data := bytes @ replicate (n - length bytes) 0\<rparr>,
                       p'))"

text \<open>
  \<open>MemoryObject<T>::ReRead\<close> with \<open>W = sizeof(T)\<close>: the read writes straight into
  \<open>value\<close>, then the number of bytes is compared with \<open>sizeof(T)\<close>. When the call
  returns, all \<open>sizeof(T)\<close> bytes of \<open>value\<close> have been overwritten.
\<close>

definition ReRead :: "nat \<Rightarrow> process \<Rightarrow> MemoryObject \<Rightarrow> error + (MemoryObject \<times> process)" where
  "ReRead W p obj =
     (let ptr = address obj
      in case ReadProcessMemory p ptr W of
           ((ok, ec, bytes), p') \<Rightarrow>
             if \<not> ok \<and> ec \<noteq> ERROR_PARTIAL_COPY then Inl (ReadFailure ec ptr)
             else if length bytes \<noteq> W then Inl ShortRead
             else Inr (obj\<lparr>value_mo := bytes\<rparr>, p'))"

section \<open>NextScan, unrestricted\<close>

text \<open>
  \<open>reinterpret_cast<const T *>(buffer)[i]\<close>: the \<open>W\<close> bytes of slot \<open>i\<close>. The read
  is inside the buffer when \<open>(i + 1) * W\<close> does not exceed its size; behind it the
  behaviour is undefined, here \<open>None\<close>.
\<close>

definition slot_at :: "nat \<Rightarrow> byte list \<Rightarrow> nat \<Rightarrow> byte list" where
  "slot_at W buf i = take W (drop (i * W) buf)"

definition slot :: "nat \<Rightarrow> byte list \<Rightarrow> nat \<Rightarrow> byte list option" where
  "slot W buf i = (if (i + 1) * W \<le> length buf then Some (slot_at W buf i) else None)"

text \<open>
  The loop \<open>for (size_t i = 0; i < count; ++i)\<close> of the unrestricted \<open>NextScan\<close>:
  \<open>found\<close> is \<open>found_at_least_one_valid_address\<close>, \<open>base\<close> is
  \<open>new_region.base_address\<close>, the address pushed is \<open>base + i * sizeof(T)\<close> in 64-bit
  arithmetic.
\<close>

function NextScan_slots ::
  "nat \<Rightarrow> FilterFn \<Rightarrow> byte list \<Rightarrow> byte list \<Rightarrow> IntPtr \<Rightarrow> nat \<Rightarrow> nat \<Rightarrow> bool \<Rightarrow> IntPtr list
     \<Rightarrow> error + (bool \<times> IntPtr list)" where
  "NextScan_slots W keep_if old_buf new_buf base count i found valid_addresses =
     (if i < count then
        (case slot W old_buf i of
           None \<Rightarrow> Inl OutOfRange
         | Some old_v \<Rightarrow>
             (case slot W new_buf i of
                None \<Rightarrow> Inl OutOfRange
              | Some new_v \<Rightarrow>
                  if keep_if old_v new_v
                  then NextScan_slots W keep_if old_buf new_buf base count (i + 1) True
                         (valid_addresses @ [base + of_nat (i * W)])
                  else NextScan_slots W keep_if old_buf new_buf base count (i + 1) found
                         valid_addresses))
      else Inr (found, valid_addresses))"
  by pat_completeness auto
termination
  by (relation "measure (\<lambda>(W, keep_if, old_buf, new_buf, base, count, i, found, valid). count - i)")
     auto

declare NextScan_slots.simps [simp del]

text \<open>\<open>std::swap(v[i], v[j])\<close> and \<open>v.resize(n)\<close> on a vector.\<close>

definition swap :: "'a list \<Rightarrow> nat \<Rightarrow> nat \<Rightarrow> 'a list" where
  "swap v i j = v[i := v ! j, j := v ! i]"

definition resize :: "nat \<Rightarrow> 'a \<Rightarrow> 'a list \<Rightarrow> 'a list" where
  "resize n d v = take n v @ replicate (n - length v) d"

definition empty_region :: MemoryRegion where
  "empty_region = \<lparr>base_address = 0, length_mr = 0, data = []\<rparr>"

text \<open>
  The loop \<open>for (size_t r = 0; r < regions.size(); ++r)\<close>: the region is read again into
  \<open>new_region\<close> (the number of bytes read that \<open>ReadRegionData\<close> returns is not looked
  at), its slots are filtered, and a region with a match is overwritten with
  \<open>new_region\<close> and swapped to index \<open>new_size\<close>.
\<close>

function NextScan_regions ::
  "nat \<Rightarrow> FilterFn \<Rightarrow> process \<Rightarrow> MemoryRegion list \<Rightarrow> IntPtr list \<Rightarrow> nat \<Rightarrow> nat
     \<Rightarrow> error + (IntPtr list \<times> MemoryRegion list \<times> nat \<times> process)" where
  "NextScan_regions W keep_if p regions valid_addresses new_size r =
     (if r < length regions then
        (case ReadRegionData p \<lparr>base_address = base_address (regions ! r),
                                length_mr = length_mr (regions ! r), data = []\<rparr> of
           Inl e \<Rightarrow> Inl e
         | Inr (bytes_read, new_region, p') \<Rightarrow>
             (case NextScan_slots W keep_if (data (regions ! r)) (data new_region)
                     (base_address new_region) (unat (length_mr (regions ! r)) div W) 0 False
                     valid_addresses of
                Inl e \<Rightarrow> Inl e
              | Inr (found, valid_addresses') \<Rightarrow>
                  if found
                  then NextScan_regions W keep_if p'
                         (let regions' = regions[r := new_region]
                          in if new_size \<noteq> r then swap regions' new_size r else regions')
                         valid_addresses' (new_size + 1) (r + 1)
                  else NextScan_regions W keep_if p' regions valid_addresses' new_size (r + 1)))
      else Inr (valid_addresses, regions, new_size, p))"
  by pat_completeness auto
termination
  by (relation "measure (\<lambda>(W, keep_if, p, regions, valid, new_size, r). length regions - r)")
     (auto simp: swap_def Let_def)

declare NextScan_regions.simps [simp del]

text \<open>
  The unrestricted \<open>NextScan<T>\<close> with \<open>W = sizeof(T)\<close>: returns \<open>valid_addresses\<close>,
  the session \<open>regions\<close> as the call leaves it, and the process.
\<close>

definition NextScan ::
  "nat \<Rightarrow> FilterFn \<Rightarrow> process \<Rightarrow> MemoryRegion list
     \<Rightarrow> error + (IntPtr list \<times> MemoryRegion list \<times> process)" where
  "NextScan W keep_if p regions =
     (case NextScan_regions W keep_if p regions [] 0 0 of
        Inl e \<Rightarrow> Inl e
      | Inr (valid_addresses, regions', new_size, p') \<Rightarrow>
          Inr (valid_addresses, resize new_size empty_region regions', p'))"

section \<open>NextScan, restricted to valid addresses\<close>

text \<open>
  The \<open>do ... while\<close> loop over the addresses of one region: \<open>old_region\<close> is
  \<open>regions[r]\<close>, \<open>translated_index\<close> is
  \<open>(valid_addresses[a] - regions[r].base_address) / sizeof(T)\<close>, an address that passes
  the filter is swapped to index \<open>new_size_a\<close>. Returns the vector, \<open>new_size_a\<close>,
  \<open>a\<close> and \<open>found_at_least_one_valid_address\<close>.
\<close>

function NextScan_addresses ::
  "nat \<Rightarrow> FilterFn \<Rightarrow> MemoryRegion \<Rightarrow> MemoryRegion \<Rightarrow> IntPtr list \<Rightarrow> nat \<Rightarrow> nat \<Rightarrow> bool
     \<Rightarrow> error + (IntPtr list \<times> nat \<times> nat \<times> bool)" where
  "NextScan_addresses W keep_if old_region new_region valid_addresses new_size_a a found =
     (let translated_index = unat (valid_addresses ! a - base_address old_region) div W
      in case slot W (data old_region) translated_index of
           None \<Rightarrow> Inl OutOfRange
         | Some old_v \<Rightarrow>
             (case slot W (data new_region) translated_index of
                None \<Rightarrow> Inl OutOfRange
              | Some new_v \<Rightarrow>
                  (let kept = keep_if old_v new_v;
                       valid_addresses' =
                         (if kept \<and> new_size_a \<noteq> a then swap valid_addresses new_size_a a
                          else valid_addresses);
                       new_size_a' = (if kept then new_size_a + 1 else new_size_a);
                       found' = (if kept then True else found);
                       a' = a + 1
                   in if a' < length valid_addresses' \<and>
                         ContainsAddress old_region (valid_addresses' ! a')
                      then NextScan_addresses W keep_if old_region new_region valid_addresses'
                             new_size_a' a' found'
                      else Inr (valid_addresses', new_size_a', a', found'))))"
  by pat_completeness auto
termination
  by (relation "measure (\<lambda>(W, keep_if, old_region, new_region, valid, new_size_a, a, found).
                  length valid - a)")
     (auto simp: swap_def Let_def split: if_splits)

declare NextScan_addresses.simps [simp del]

text \<open>
  The loop \<open>while (r < regions.size() && a < valid_addresses.size())\<close>: a region that
  does not contain \<open>valid_addresses[a]\<close> is passed over, the others are read again and
  their addresses filtered; a region with an address that passed is overwritten with
  \<open>new_region\<close> and swapped to index \<open>new_size_r\<close>.
\<close>

function NextScan_merge ::
  "nat \<Rightarrow> FilterFn \<Rightarrow> process \<Rightarrow> MemoryRegion list \<Rightarrow> IntPtr list \<Rightarrow> nat \<Rightarrow> nat \<Rightarrow> nat \<Rightarrow> nat
     \<Rightarrow> error + (MemoryRegion list \<times> IntPtr list \<times> nat \<times> nat \<times> process)" where
  "NextScan_merge W keep_if p regions valid_addresses new_size_r new_size_a r a =
     (if r < length regions \<and> a < length valid_addresses then
        (if \<not> ContainsAddress (regions ! r) (valid_addresses ! a)
         then NextScan_merge W keep_if p regions valid_addresses new_size_r new_size_a (r + 1) a
         else
           (case ReadRegionData p \<lparr>base_address = base_address (regions ! r),
                                   length_mr = length_mr (regions ! r), data = []\<rparr> of
              Inl e \<Rightarrow> Inl e
            | Inr (bytes_read, new_region, p') \<Rightarrow>
                (case NextScan_addresses W keep_if (regions ! r) new_region valid_addresses
                        new_size_a a False of
                   Inl e \<Rightarrow> Inl e
                 | Inr (valid_addresses', new_size_a', a', found) \<Rightarrow>
                     if found
                     then NextScan_merge W keep_if p'
                            (let regions' = regions[r := new_region]
                             in if new_size_r \<noteq> r then swap regions' new_size_r r else regions')
                            valid_addresses' (new_size_r + 1) new_size_a' (r + 1) a'
                     else NextScan_merge W keep_if p' regions valid_addresses' new_size_r
                            new_size_a' (r + 1) a')))
      else Inr (regions, valid_addresses, new_size_r, new_size_a, p))"
  by pat_completeness auto
termination
  by (relation "measure (\<lambda>(W, keep_if, p, regions, valid, new_size_r, new_size_a, r, a).
                  length regions - r)")
     (auto simp: swap_def Let_def)

declare NextScan_merge.simps [simp del]

text \<open>
  The restricted \<open>NextScan<T>\<close>: returns the session \<open>regions\<close> and
  \<open>valid_addresses\<close> as the call leaves them, and the process.
\<close>

definition NextScan_restricted ::
  "nat \<Rightarrow> FilterFn \<Rightarrow> process \<Rightarrow> MemoryRegion list \<Rightarrow> IntPtr list
     \<Rightarrow> error + (MemoryRegion list \<times> IntPtr list \<times> process)" where
  "NextScan_restricted W keep_if p regions valid_addresses =
     (case NextScan_merge W keep_if p regions valid_addresses 0 0 0 0 of
        Inl e \<Rightarrow> Inl e
      | Inr (regions', valid_addresses', new_size_r, new_size_a, p') \<Rightarrow>
          Inr (resize new_size_r empty_region regions', resize new_size_a 0 valid_addresses', p'))"

section \<open>InitialScan\<close>

text \<open>
  The loop \<open>for (char *address = nullptr;;)\<close>. It has no bound of its own, so the model
  counts queries down from \<open>fuel\<close> and \<open>None\<close> says that the loop has not left within
  that many queries. The cursor moves on by \<open>RegionSize\<close> whether or not the region is
  kept.
\<close>

fun InitialScan_loop ::
  "nat \<Rightarrow> process \<Rightarrow> IntPtr \<Rightarrow> MemoryRegion list \<Rightarrow> (error + (MemoryRegion list \<times> process)) option" where
  "InitialScan_loop 0 p addr regions = None"
| "InitialScan_loop (Suc fuel) p addr regions =
     (case VirtualQueryEx p addr of
        VQ_Fail ec \<Rightarrow>
          if ec = ERROR_INVALID_PARAMETER then Some (Inr (regions, p))
          else Some (Inl (QueryFailure ec))
      | VQ_Ok mem_info \<Rightarrow>
          (let addr' = addr + RegionSize mem_info
           in if State mem_info \<noteq> MEM_COMMIT then InitialScan_loop fuel p addr' regions
              else if Protect mem_info \<noteq> PAGE_READWRITE \<and>
                      Protect mem_info \<noteq> PAGE_EXECUTE_READWRITE
              then InitialScan_loop fuel p addr' regions
              else
                (case ReadRegionData p \<lparr>base_address = BaseAddress mem_info,
                                        length_mr = RegionSize mem_info, data = []\<rparr> of
                   Inl e \<Rightarrow> Some (Inl e)
                 | Inr (bytes_read, region, p') \<Rightarrow>
                     if bytes_read \<noteq> unat (RegionSize mem_info) then Some (Inl ShortRead)
                     else InitialScan_loop fuel p' addr' (regions @ [region]))))"

definition InitialScan :: "nat \<Rightarrow> process \<Rightarrow> (error + (MemoryRegion list \<times> process)) option" where
  "InitialScan fuel p = InitialScan_loop fuel p 0 []"

section \<open>Notions used to state the properties\<close>

text \<open>
  The outcome of a read, in the words of the specification: a hard
  error is a failed call whose error code is not the partial copy, the bytes obtained are
  the bytes copied.
\<close>

definition hard_error :: "process \<Rightarrow> IntPtr \<Rightarrow> nat \<Rightarrow> bool" where
  "hard_error p addr n \<longleftrightarrow>
     \<not> rpm_ok (memory p addr n) \<and> rpm_last_error (memory p addr n) \<noteq> ERROR_PARTIAL_COPY"

definition obtained :: "process \<Rightarrow> IntPtr \<Rightarrow> nat \<Rightarrow> byte list" where
  "obtained p addr n = take n (rpm_copied (memory p addr n))"

text \<open>
  What a fresh read of a region leaves in the new buffer of \<open>ReadRegionData\<close>: the
  bytes obtained, then the zeros of the allocation.
\<close>

definition fresh_buffer :: "process \<Rightarrow> MemoryRegion \<Rightarrow> byte list" where
  "fresh_buffer p mr =
     (let n = unat (length_mr mr); bytes = obtained p (base_address mr) n
      in bytes @ replicate (n - length bytes) 0)"

text \<open>The \<open>new_region\<close> of a refinement: same base and length, freshly read bytes.\<close>

definition refreshed :: "process \<Rightarrow> MemoryRegion \<Rightarrow> MemoryRegion" where
  "refreshed p mr =
     \<lparr>base_address = base_address mr, length_mr = length_mr mr, data = fresh_buffer p mr\<rparr>"

text \<open>
  The slot addresses \<open>base + i * W\<close> of a region, \<open>0 \<le> i < length / W\<close>, at which the
  filter holds of the stored slot and the freshly read slot, in slot order.
\<close>

definition matches :: "nat \<Rightarrow> FilterFn \<Rightarrow> process \<Rightarrow> MemoryRegion \<Rightarrow> IntPtr list" where
  "matches W keep_if p mr =
     map (\<lambda>i. base_address mr + of_nat (i * W))
       (filter (\<lambda>i. keep_if (slot_at W (data mr) i) (slot_at W (fresh_buffer p mr) i))
          [0..<unat (length_mr mr) div W])"

text \<open>The entry that reading a region adds to the log of reads.\<close>

definition read_of :: "MemoryRegion \<Rightarrow> IntPtr \<times> nat" where
  "read_of mr = (base_address mr, unat (length_mr mr))"

text \<open>The slot index of an address in a region, as the restricted scan computes it.\<close>

definition translated_index :: "nat \<Rightarrow> MemoryRegion \<Rightarrow> IntPtr \<Rightarrow> nat" where
  "translated_index W mr x = unat (x - base_address mr) div W"

text \<open>The filter at the slot of an address: stored bytes against freshly read bytes.\<close>

definition passes :: "nat \<Rightarrow> FilterFn \<Rightarrow> process \<Rightarrow> MemoryRegion \<Rightarrow> IntPtr \<Rightarrow> bool" where
  "passes W keep_if p mr x \<longleftrightarrow>
     keep_if (slot_at W (data mr) (translated_index W mr x))
             (slot_at W (fresh_buffer p mr) (translated_index W mr x))"

text \<open>
  The list-level reading of the restricted loop, used to state what it keeps: a region
  that does not contain the first remaining address is passed over; otherwise the leading
  addresses inside the region are filtered, and the region is kept iff one of them passes.
  The lemma \<open>NextScan_restricted_Inr\<close> shows that the index-and-swap loop of the source
  computes exactly this pair.
\<close>

fun merge_kept ::
  "nat \<Rightarrow> FilterFn \<Rightarrow> process \<Rightarrow> MemoryRegion list \<Rightarrow> IntPtr list \<Rightarrow> MemoryRegion list \<times> IntPtr list" where
  "merge_kept W keep_if p [] A = ([], [])"
| "merge_kept W keep_if p (mr # R) [] = ([], [])"
| "merge_kept W keep_if p (mr # R) (x # A) =
     (if \<not> ContainsAddress mr x then merge_kept W keep_if p R (x # A)
      else
        (let kept = filter (passes W keep_if p mr) (x # takeWhile (ContainsAddress mr) A);
             rest = merge_kept W keep_if p R (dropWhile (ContainsAddress mr) A)
         in ((if kept = [] then [] else [refreshed p mr]) @ fst rest, kept @ snd rest)))"

text \<open>
  The span of a region and of a region descriptor: base address and length. The byte range
  of a span is the set of addresses \<open>base, ..., base + length - 1\<close>, as numbers.
\<close>

definition region_span :: "MemoryRegion \<Rightarrow> IntPtr \<times> IntPtr" where
  "region_span mr = (base_address mr, length_mr mr)"

definition info_span :: "MEMORY_BASIC_INFORMATION \<Rightarrow> IntPtr \<times> IntPtr" where
  "info_span m = (BaseAddress m, RegionSize m)"

definition span_range :: "IntPtr \<times> IntPtr \<Rightarrow> nat set" where
  "span_range s = {unat (fst s) ..< unat (fst s) + unat (snd s)}"

definition byte_range :: "MemoryRegion \<Rightarrow> nat set" where
  "byte_range mr = span_range (region_span mr)"

text \<open>
  The order of a session: every earlier region has the smaller base address and the byte
  ranges of two regions never overlap.
\<close>

definition span_before :: "IntPtr \<times> IntPtr \<Rightarrow> IntPtr \<times> IntPtr \<Rightarrow> bool" where
  "span_before s t \<longleftrightarrow> fst s < fst t \<and> span_range s \<inter> span_range t = {}"

definition ascending :: "(IntPtr \<times> IntPtr) list \<Rightarrow> bool" where
  "ascending spans = sorted_wrt span_before spans"

definition session_ascending :: "MemoryRegion list \<Rightarrow> bool" where
  "session_ascending regions = ascending (map region_span regions)"

text \<open>A region lies in the 64-bit address space when its byte range ends there.\<close>

definition in_address_space :: "MemoryRegion \<Rightarrow> bool" where
  "in_address_space mr \<longleftrightarrow> unat (base_address mr) + unat (length_mr mr) \<le> 2 ^ 64"

text \<open>
  The descriptors that the region enumeration of a process yields, in the order of the
  queries: the cursor starts at the given address and moves on by the size of each
  descriptor, as \<open>InitialScan\<close> moves it; at most \<open>fuel\<close> queries.
\<close>

fun enumerated :: "nat \<Rightarrow> process \<Rightarrow> IntPtr \<Rightarrow> MEMORY_BASIC_INFORMATION list" where
  "enumerated 0 p addr = []"
| "enumerated (Suc fuel) p addr =
     (case VirtualQueryEx p addr of
        VQ_Fail ec \<Rightarrow> []
      | VQ_Ok mem_info \<Rightarrow> mem_info # enumerated fuel p (addr + RegionSize mem_info))"

text \<open>A region can be read when the read of its span reports no hard error.\<close>

definition readable :: "process \<Rightarrow> MemoryRegion \<Rightarrow> bool" where
  "readable p mr \<longleftrightarrow> \<not> hard_error p (base_address mr) (unat (length_mr mr))"

text \<open>
  The slot of an address lies inside the region: the slot index that the restricted scan
  computes addresses \<open>W\<close> bytes within \<open>length\<close>.
\<close>

definition slot_ok :: "nat \<Rightarrow> MemoryRegion \<Rightarrow> IntPtr \<Rightarrow> bool" where
  "slot_ok W mr x \<longleftrightarrow> (translated_index W mr x + 1) * W \<le> unat (length_mr mr)"

text \<open>Every valid address lies in a region of the session (section 3 of the specification).\<close>

definition covered :: "MemoryRegion list \<Rightarrow> IntPtr list \<Rightarrow> bool" where
  "covered regions addrs \<longleftrightarrow> (\<forall>x\<in>set addrs. \<exists>mr\<in>set regions. ContainsAddress mr x)"

text \<open>An address survives a restricted scan: a region contains it and the filter passes there.\<close>

definition survives :: "nat \<Rightarrow> FilterFn \<Rightarrow> process \<Rightarrow> MemoryRegion list \<Rightarrow> IntPtr \<Rightarrow> bool" where
  "survives W keep_if p regions x \<longleftrightarrow>
     (\<exists>mr\<in>set regions. ContainsAddress mr x \<and> passes W keep_if p mr x)"

text \<open>A region has a surviving address among the given ones.\<close>

definition has_survivor :: "nat \<Rightarrow> FilterFn \<Rightarrow> process \<Rightarrow> IntPtr list \<Rightarrow> MemoryRegion \<Rightarrow> bool" where
  "has_survivor W keep_if p addrs mr \<longleftrightarrow>
     (\<exists>x\<in>set addrs. ContainsAddress mr x \<and> passes W keep_if p mr x)"

section \<open>The example program and concrete sessions\<close>

text \<open>
  \<open>example.cpp\<close> scans for \<open>int32_t\<close>: \<open>sizeof(T)\<close> is 4, a slot holds the value in
  little-endian byte order, and the filter of \<open>DoNextScan\<close> is
  \<open>current == user_value\<close>.
\<close>

definition int32_of :: "byte list \<Rightarrow> 32 word" where
  "int32_of bs = of_nat (foldr (\<lambda>b n. unat b + 256 * n) bs 0)"

definition equals_int32 :: "32 word \<Rightarrow> FilterFn" where
  "equals_int32 user_value = (\<lambda>prev current. int32_of current = user_value)"

text \<open>The bytes of a row of small \<open>int32_t\<close> values (each below 256).\<close>

definition int32_slots :: "nat list \<Rightarrow> byte list" where
  "int32_slots vs = concat (map (\<lambda>v. [of_nat v, 0, 0, 0]) vs)"

text \<open>A region of four \<open>int32_t\<close> slots at a base address.\<close>

definition example_region :: "IntPtr \<Rightarrow> nat list \<Rightarrow> MemoryRegion" where
  "example_region base vs = \<lparr>base_address = base, length_mr = 16, data = int32_slots vs\<rparr>"

text \<open>
  A process whose memory holds the given bytes at the given addresses: a read there
  succeeds and delivers them, a read elsewhere fails with \<open>ERROR_NOACCESS\<close> (998).
\<close>

definition example_process :: "(IntPtr \<times> byte list) list \<Rightarrow> process" where
  "example_process tbl =
     \<lparr>memory = (\<lambda>a n. case map_of tbl a of
                   Some bs \<Rightarrow> \<lparr>rpm_ok = True, rpm_last_error = 0, rpm_copied = bs\<rparr>
                 | None \<Rightarrow> \<lparr>rpm_ok = False, rpm_last_error = 998, rpm_copied = []\<rparr>),
      query = (\<lambda>a. VQ_Fail ERROR_INVALID_PARAMETER),
      reads = []\<rparr>"

text \<open>
  A process in which every read is cut short: the call fails with \<open>ERROR_PARTIAL_COPY\<close>
  after copying the given bytes.
\<close>

definition partial_copy_process :: "byte list \<Rightarrow> process" where
  "partial_copy_process bs =
     \<lparr>memory = (\<lambda>a n. \<lparr>rpm_ok = False, rpm_last_error = ERROR_PARTIAL_COPY, rpm_copied = bs\<rparr>),
      query = (\<lambda>a. VQ_Fail ERROR_INVALID_PARAMETER),
      reads = []\<rparr>"

text \<open>
  A process with four regions from address 0: 64 KiB free, one page committed read-write,
  two pages committed read-only, one page committed execute-read-write; the query behind
  them fails with \<open>ERROR_INVALID_PARAMETER\<close>. Every read delivers zeros.
\<close>

definition example_layout :: process where
  "example_layout =
     \<lparr>memory = (\<lambda>a n. \<lparr>rpm_ok = True, rpm_last_error = 0, rpm_copied = replicate n 0\<rparr>),
      query = (\<lambda>a.
        if a = 0 then VQ_Ok \<lparr>BaseAddress = 0, RegionSize = 0x10000, State = 0x10000, Protect = 0x01\<rparr>
        else if a = 0x10000 then
          VQ_Ok \<lparr>BaseAddress = 0x10000, RegionSize = 0x1000, State = MEM_COMMIT,
                 Protect = PAGE_READWRITE\<rparr>
        else if a = 0x11000 then
          VQ_Ok \<lparr>BaseAddress = 0x11000, RegionSize = 0x2000, State = MEM_COMMIT, Protect = 0x02\<rparr>
        else if a = 0x13000 then
          VQ_Ok \<lparr>BaseAddress = 0x13000, RegionSize = 0x1000, State = MEM_COMMIT,
                 Protect = PAGE_EXECUTE_READWRITE\<rparr>
        else VQ_Fail ERROR_INVALID_PARAMETER),
      reads = []\<rparr>"

section \<open>Theorems\<close>

subsection \<open>The loops compute the kept lists\<close>

lemma fresh_buffer_reads [simp]: "fresh_buffer (p\<lparr>reads := l\<rparr>) mr = fresh_buffer p mr"
  by (simp add: fresh_buffer_def obtained_def)

lemma matches_reads [simp]: "matches W k (p\<lparr>reads := l\<rparr>) mr = matches W k p mr"
  by (simp add: matches_def)

lemma refreshed_reads [simp]: "refreshed (p\<lparr>reads := l\<rparr>) mr = refreshed p mr"
  by (simp add: refreshed_def)

lemma ReadRegionData_Inr:
  "ReadRegionData p \<lparr>base_address = base_address mr, length_mr = length_mr mr, data = []\<rparr>
     = Inr (n, nr, p') \<Longrightarrow>
   nr = refreshed p mr \<and> p' = p\<lparr>reads := reads p @ [(base_address mr, unat (length_mr mr))]\<rparr>
   \<and> n = length (obtained p (base_address mr) (unat (length_mr mr)))"
  by (auto simp: ReadRegionData_def ReadProcessMemory_def refreshed_def fresh_buffer_def
        obtained_def Let_def split: if_splits)

lemma slot_Some: "slot W buf i = Some v \<Longrightarrow> v = slot_at W buf i"
  by (auto simp: slot_def split: if_splits)

lemma NextScan_slots_Inr:
  "NextScan_slots W k old new base count i found valid = Inr (f, v) \<Longrightarrow>
   v = valid @ map (\<lambda>j. base + of_nat (j * W))
                 [j \<leftarrow> [i..<count]. k (slot_at W old j) (slot_at W new j)]
   \<and> (f \<longleftrightarrow> found \<or> [j \<leftarrow> [i..<count]. k (slot_at W old j) (slot_at W new j)] \<noteq> [])"
proof (induction W k old new base count i found valid rule: NextScan_slots.induct)
  case (1 W k old new base count i found valid)
  note step = NextScan_slots.simps [of W k old new base count i found valid]
  show ?case
  proof (cases "i < count")
    case False
    with "1.prems" show ?thesis by (simp add: step)
  next
    case True
    then obtain ov nv where ov: "slot W old i = Some ov" and nv: "slot W new i = Some nv"
      using "1.prems" by (auto simp: step split: option.splits)
    have upt: "[i..<count] = i # [i + 1..<count]"
      using True by (simp add: upt_conv_Cons)
    have ovv: "ov = slot_at W old i" and nvv: "nv = slot_at W new i"
      using ov nv by (auto dest: slot_Some)
    show ?thesis
    proof (cases "k ov nv")
      case True
      with \<open>i < count\<close> ov nv "1.prems"
      have "NextScan_slots W k old new base count (i + 1) True (valid @ [base + of_nat (i * W)])
              = Inr (f, v)" by (simp add: step)
      from "1.IH"(1) [OF \<open>i < count\<close> ov nv True this] True show ?thesis
        unfolding upt ovv nvv by simp
    next
      case False
      with \<open>i < count\<close> ov nv "1.prems"
      have "NextScan_slots W k old new base count (i + 1) found valid = Inr (f, v)"
        by (simp add: step)
      from "1.IH"(2) [OF \<open>i < count\<close> ov nv False this] False show ?thesis
        unfolding upt ovv nvv by simp
    qed
  qed
qed

lemma NextScan_slots_matches:
  assumes "NextScan_slots W k (data mr) (fresh_buffer p mr) (base_address mr)
             (unat (length_mr mr) div W) 0 False valid = Inr (f, v)"
  shows "v = valid @ matches W k p mr \<and> (f \<longleftrightarrow> matches W k p mr \<noteq> [])"
  using NextScan_slots_Inr [OF assms] by (simp add: matches_def)

lemma swap_to_front:
  assumes "ns \<le> length pre"
  shows "\<exists>pre'. (if ns \<noteq> length pre then swap (pre @ nr # R) ns (length pre) else pre @ nr # R)
               = pre' @ R \<and> length pre' = Suc (length pre) \<and> take (Suc ns) pre' = take ns pre @ [nr]"
proof (cases "ns = length pre")
  case True
  then show ?thesis by (intro exI [of _ "pre @ [nr]"]) simp
next
  case False
  with assms have lt: "ns < length pre" by simp
  have "swap (pre @ nr # R) ns (length pre) = (pre[ns := nr] @ [pre ! ns]) @ R"
    using lt by (simp add: swap_def list_update_append nth_append)
  moreover have "take (Suc ns) (pre[ns := nr] @ [pre ! ns]) = take ns pre @ [nr]"
    using lt by (simp add: take_Suc_conv_app_nth)
  ultimately show ?thesis using False
    by (intro exI [of _ "pre[ns := nr] @ [pre ! ns]"]) simp
qed

lemma NextScan_regions_step:
  "NextScan_regions W k p (pre @ mr # R) valid ns (length pre) =
     (case ReadRegionData p \<lparr>base_address = base_address mr, length_mr = length_mr mr, data = []\<rparr> of
        Inl e \<Rightarrow> Inl e
      | Inr (n, nr, p1) \<Rightarrow>
          (case NextScan_slots W k (data mr) (data nr) (base_address nr)
                  (unat (length_mr mr) div W) 0 False valid of
             Inl e \<Rightarrow> Inl e
           | Inr (f, v1) \<Rightarrow>
               if f then NextScan_regions W k p1
                           (if ns \<noteq> length pre then swap (pre @ nr # R) ns (length pre)
                            else pre @ nr # R) v1 (ns + 1) (length pre + 1)
               else NextScan_regions W k p1 (pre @ mr # R) v1 ns (length pre + 1)))"
  by (subst NextScan_regions.simps) (simp add: Let_def split: sum.splits)

lemma NextScan_regions_Inr:
  "NextScan_regions W k p (pre @ R) valid ns (length pre) = Inr (v, rs, ns', p') \<Longrightarrow>
   ns \<le> length pre \<Longrightarrow>
   v = valid @ concat (map (matches W k p) R)
   \<and> take ns' rs = take ns pre @ map (refreshed p) [mr \<leftarrow> R. matches W k p mr \<noteq> []]
   \<and> ns' = ns + length [mr \<leftarrow> R. matches W k p mr \<noteq> []]
   \<and> length rs = length pre + length R
   \<and> p' = p\<lparr>reads := reads p @ map read_of R\<rparr>"
proof (induction R arbitrary: pre valid ns p)
  case Nil
  then show ?case by (simp add: NextScan_regions.simps)
next
  case (Cons mr R)
  note step = NextScan_regions_step [of W k p pre mr R valid ns]
  from Cons.prems(1) obtain n nr p1 where
    rd: "ReadRegionData p \<lparr>base_address = base_address mr, length_mr = length_mr mr, data = []\<rparr>
           = Inr (n, nr, p1)"
    by (auto simp: step split: sum.splits)
  from ReadRegionData_Inr [OF rd] have nr: "nr = refreshed p mr"
    and p1: "p1 = p\<lparr>reads := reads p @ [read_of mr]\<rparr>" by (simp_all add: read_of_def)
  from Cons.prems(1) rd obtain f v1 where
    sl: "NextScan_slots W k (data mr) (data nr) (base_address nr) (unat (length_mr mr) div W) 0
           False valid = Inr (f, v1)"
    by (auto simp: step split: sum.splits)
  have "data nr = fresh_buffer p mr" "base_address nr = base_address mr"
    by (simp_all add: nr refreshed_def)
  with sl NextScan_slots_matches [of W k mr p valid f v1]
  have v1: "v1 = valid @ matches W k p mr" and f: "f \<longleftrightarrow> matches W k p mr \<noteq> []" by simp_all
  show ?case
  proof (cases f)
    case True
    from swap_to_front [OF Cons.prems(2), of nr R] obtain pre' where
      sw: "(if ns \<noteq> length pre then swap (pre @ nr # R) ns (length pre) else pre @ nr # R)
             = pre' @ R"
      and len: "length pre' = Suc (length pre)"
      and tk: "take (Suc ns) pre' = take ns pre @ [nr]" by blast
    from Cons.prems(1) rd sl True
    have "NextScan_regions W k p1 (pre' @ R) v1 (ns + 1) (length pre') = Inr (v, rs, ns', p')"
      by (simp add: step sw len)
    from Cons.IH [OF this] Cons.prems(2) len
    show ?thesis using True f v1 tk unfolding nr p1 by clarsimp
  next
    case False
    from Cons.prems(1) rd sl False
    have "NextScan_regions W k p1 ((pre @ [mr]) @ R) v1 ns (length (pre @ [mr])) = Inr (v, rs, ns', p')"
      by (simp add: step)
    from Cons.IH [OF this] Cons.prems(2)
    show ?thesis using False f v1 unfolding p1 by clarsimp
  qed
qed

lemma passes_reads [simp]: "passes W k (p\<lparr>reads := l\<rparr>) mr x = passes W k p mr x"
  by (simp add: passes_def)

lemma passes_reads_fun [simp]: "passes W k (p\<lparr>reads := l\<rparr>) mr = passes W k p mr"
  by (rule ext) simp

lemma merge_kept_reads [simp]:
  "merge_kept W k (p\<lparr>reads := l\<rparr>) R A = merge_kept W k p R A"
  by (induction W k p R A rule: merge_kept.induct) (simp_all add: Let_def)

lemma swap_addr_to_front:
  assumes "ka \<le> length pre"
  shows "\<exists>pre'. (if kept \<and> ka \<noteq> length pre then swap (pre @ x # A) ka (length pre) else pre @ x # A)
               = pre' @ A \<and> length pre' = Suc (length pre)
               \<and> take (if kept then ka + 1 else ka) pre' = take ka pre @ (if kept then [x] else [])"
proof (cases kept)
  case True
  from swap_to_front [OF assms, of x A] True show ?thesis by auto
next
  case False
  with assms show ?thesis by (intro exI [of _ "pre @ [x]"]) simp
qed

lemma NextScan_addresses_step:
  "NextScan_addresses W k mr nr (pre @ x # A) ka (length pre) found =
     (case slot W (data mr) (translated_index W mr x) of
        None \<Rightarrow> Inl OutOfRange
      | Some ov \<Rightarrow>
          (case slot W (data nr) (translated_index W mr x) of
             None \<Rightarrow> Inl OutOfRange
           | Some nv \<Rightarrow>
               (let v' = (if k ov nv \<and> ka \<noteq> length pre then swap (pre @ x # A) ka (length pre)
                          else pre @ x # A);
                    ka' = (if k ov nv then ka + 1 else ka);
                    found' = (k ov nv \<or> found)
                in if length pre + 1 < length v' \<and> ContainsAddress mr (v' ! (length pre + 1))
                   then NextScan_addresses W k mr nr v' ka' (length pre + 1) found'
                   else Inr (v', ka', length pre + 1, found'))))"
  by (subst NextScan_addresses.simps)
     (simp add: Let_def translated_index_def split: option.splits)

lemma NextScan_addresses_Inr:
  "NextScan_addresses W k mr nr (pre @ x # A) ka (length pre) found = Inr (v, ka', a', f) \<Longrightarrow>
   ka \<le> length pre \<Longrightarrow> data nr = fresh_buffer p mr \<Longrightarrow>
   \<exists>pre'. v = pre' @ dropWhile (ContainsAddress mr) A
     \<and> a' = length pre'
     \<and> ka' = ka + length (filter (passes W k p mr) (x # takeWhile (ContainsAddress mr) A))
     \<and> take ka' pre' = take ka pre @ filter (passes W k p mr) (x # takeWhile (ContainsAddress mr) A)
     \<and> (f \<longleftrightarrow> found \<or> filter (passes W k p mr) (x # takeWhile (ContainsAddress mr) A) \<noteq> [])"
proof (induction A arbitrary: pre x ka found)
  case Nil
  note step = NextScan_addresses_step [of W k mr nr pre x "[]" ka found]
  from Nil.prems(1) obtain ov nv where
    ov: "slot W (data mr) (translated_index W mr x) = Some ov" and
    nv: "slot W (data nr) (translated_index W mr x) = Some nv"
    by (auto simp: step split: option.splits)
  have kp: "k ov nv \<longleftrightarrow> passes W k p mr x"
    using slot_Some [OF ov] slot_Some [OF nv] Nil.prems(3) by (simp add: passes_def)
  from swap_addr_to_front [OF Nil.prems(2), of "k ov nv" x "[]"] obtain pre' where
    sw: "(if k ov nv \<and> ka \<noteq> length pre then swap (pre @ [x]) ka (length pre) else pre @ [x])
           = pre'"
    and len: "length pre' = Suc (length pre)"
    and tk: "take (if k ov nv then ka + 1 else ka) pre' = take ka pre @ (if k ov nv then [x] else [])"
    by auto
  from Nil.prems(1) have "v = pre'" "ka' = (if k ov nv then ka + 1 else ka)"
    "a' = length pre + 1" "f = (k ov nv \<or> found)"
    by (auto simp: step ov nv sw len Let_def)
  with len tk kp show ?case by (intro exI [of _ pre']) auto
next
  case (Cons y A)
  note step = NextScan_addresses_step [of W k mr nr pre x "y # A" ka found]
  from Cons.prems(1) obtain ov nv where
    ov: "slot W (data mr) (translated_index W mr x) = Some ov" and
    nv: "slot W (data nr) (translated_index W mr x) = Some nv"
    by (auto simp: step split: option.splits)
  have kp: "k ov nv \<longleftrightarrow> passes W k p mr x"
    using slot_Some [OF ov] slot_Some [OF nv] Cons.prems(3) by (simp add: passes_def)
  let ?ka1 = "if k ov nv then ka + 1 else ka"
  from swap_addr_to_front [OF Cons.prems(2), of "k ov nv" x "y # A"] obtain pre' where
    sw: "(if k ov nv \<and> ka \<noteq> length pre then swap (pre @ x # y # A) ka (length pre)
          else pre @ x # y # A) = pre' @ y # A"
    and len: "length pre' = Suc (length pre)"
    and tk: "take ?ka1 pre' = take ka pre @ (if k ov nv then [x] else [])"
    by auto
  have nth: "(pre' @ y # A) ! Suc (length pre) = y"
    using len by (simp add: nth_append)
  have ka1: "?ka1 \<le> length pre'" using Cons.prems(2) len by simp
  show ?case
  proof (cases "ContainsAddress mr y")
    case True
    with Cons.prems(1)
    have "NextScan_addresses W k mr nr (pre' @ y # A) ?ka1 (length pre') (k ov nv \<or> found)
            = Inr (v, ka', a', f)"
      by (simp add: step ov nv sw len nth Let_def)
    from Cons.IH [OF this ka1 Cons.prems(3)] obtain pre'' where
      "v = pre'' @ dropWhile (ContainsAddress mr) A" "a' = length pre''"
      "ka' = ?ka1 + length (filter (passes W k p mr) (y # takeWhile (ContainsAddress mr) A))"
      "take ka' pre'' = take ?ka1 pre' @ filter (passes W k p mr) (y # takeWhile (ContainsAddress mr) A)"
      "f \<longleftrightarrow> (k ov nv \<or> found) \<or> filter (passes W k p mr) (y # takeWhile (ContainsAddress mr) A) \<noteq> []"
      by blast
    with True tk kp show ?thesis by (intro exI [of _ pre'']) auto
  next
    case False
    with Cons.prems(1) have "v = pre' @ y # A" "ka' = ?ka1" "a' = length pre + 1"
      "f = (k ov nv \<or> found)"
      by (auto simp: step ov nv sw len nth Let_def)
    with False len tk kp show ?thesis by (intro exI [of _ pre']) auto
  qed
qed

lemma NextScan_merge_exit:
  "\<not> (r < length regions \<and> a < length valid) \<Longrightarrow>
   NextScan_merge W k p regions valid kr ka r a = Inr (regions, valid, kr, ka, p)"
  by (subst NextScan_merge.simps) auto

lemma NextScan_merge_step:
  "NextScan_merge W k p (preR @ mr # R) (preA @ x # A) kr ka (length preR) (length preA) =
     (if \<not> ContainsAddress mr x
      then NextScan_merge W k p (preR @ mr # R) (preA @ x # A) kr ka (length preR + 1) (length preA)
      else
        (case ReadRegionData p \<lparr>base_address = base_address mr, length_mr = length_mr mr, data = []\<rparr> of
           Inl e \<Rightarrow> Inl e
         | Inr (n, nr, p1) \<Rightarrow>
             (case NextScan_addresses W k mr nr (preA @ x # A) ka (length preA) False of
                Inl e \<Rightarrow> Inl e
              | Inr (v1, ka1, a1, f) \<Rightarrow>
                  if f then NextScan_merge W k p1
                              (if kr \<noteq> length preR then swap (preR @ nr # R) kr (length preR)
                               else preR @ nr # R) v1 (kr + 1) ka1 (length preR + 1) a1
                  else NextScan_merge W k p1 (preR @ mr # R) v1 kr ka1 (length preR + 1) a1)))"
  by (subst NextScan_merge.simps) (simp add: Let_def split: sum.splits)

lemma NextScan_merge_Inr:
  "NextScan_merge W k p (preR @ R) (preA @ A) kr ka (length preR) (length preA)
     = Inr (rs, v, kr', ka', p') \<Longrightarrow>
   kr \<le> length preR \<Longrightarrow> ka \<le> length preA \<Longrightarrow>
   take kr' rs = take kr preR @ fst (merge_kept W k p R A)
   \<and> kr' = kr + length (fst (merge_kept W k p R A))
   \<and> take ka' v = take ka preA @ snd (merge_kept W k p R A)
   \<and> ka' = ka + length (snd (merge_kept W k p R A))"
proof (induction R arbitrary: preR preA A kr ka p)
  case Nil
  then show ?case by (auto simp: NextScan_merge_exit)
next
  case (Cons mr R)
  show ?case
  proof (cases A)
    case Nil
    with Cons.prems show ?thesis by (auto simp: NextScan_merge_exit)
  next
    case (Cons x A')
    note A = Cons
    note step = NextScan_merge_step [of W k p preR mr R preA x A' kr ka]
    show ?thesis
    proof (cases "ContainsAddress mr x")
      case False
      with Cons.prems(1) A
      have "NextScan_merge W k p ((preR @ [mr]) @ R) (preA @ A) kr ka (length (preR @ [mr]))
              (length preA) = Inr (rs, v, kr', ka', p')"
        by (simp add: step)
      from Cons.IH [OF this] Cons.prems(2,3) False A show ?thesis by clarsimp
    next
      case True
      from Cons.prems(1) A True obtain n nr p1 where
        rd: "ReadRegionData p \<lparr>base_address = base_address mr, length_mr = length_mr mr, data = []\<rparr>
               = Inr (n, nr, p1)"
        by (auto simp: step split: sum.splits)
      from ReadRegionData_Inr [OF rd] have nr: "nr = refreshed p mr"
        and p1: "p1 = p\<lparr>reads := reads p @ [read_of mr]\<rparr>" by (simp_all add: read_of_def)
      from Cons.prems(1) A True rd obtain v1 ka1 a1 f where
        ad: "NextScan_addresses W k mr nr (preA @ x # A') ka (length preA) False = Inr (v1, ka1, a1, f)"
        by (auto simp: step split: sum.splits)
      define kept where "kept = filter (passes W k p mr) (x # takeWhile (ContainsAddress mr) A')"
      define outs where "outs = dropWhile (ContainsAddress mr) A'"
      define KR where "KR = fst (merge_kept W k p R outs)"
      define KA where "KA = snd (merge_kept W k p R outs)"
      have "data nr = fresh_buffer p mr" by (simp add: nr refreshed_def)
      from NextScan_addresses_Inr [OF ad Cons.prems(3) this] obtain preA' where
        v1: "v1 = preA' @ outs" and a1: "a1 = length preA'"
        and ka1: "ka1 = ka + length kept"
        and tk1: "take ka1 preA' = take ka preA @ kept"
        and f: "f \<longleftrightarrow> kept \<noteq> []"
        unfolding kept_def outs_def by auto
      have ka1_le: "ka1 \<le> length preA'"
      proof -
        have "length (take ka1 preA') = ka1" using tk1 ka1 Cons.prems(3) by simp
        then show ?thesis by simp
      qed
      have mk: "merge_kept W k p (mr # R) A = ((if kept = [] then [] else [refreshed p mr]) @ KR, kept @ KA)"
        using True A unfolding kept_def outs_def KR_def KA_def by (simp add: Let_def)
      have p1_eq: "merge_kept W k p1 R outs = merge_kept W k p R outs"
        unfolding p1 by simp
      show ?thesis
      proof (cases f)
        case True
        from swap_to_front [OF Cons.prems(2), of nr R] obtain preR' where
          sw: "(if kr \<noteq> length preR then swap (preR @ nr # R) kr (length preR) else preR @ nr # R)
                 = preR' @ R"
          and len: "length preR' = Suc (length preR)"
          and tk: "take (Suc kr) preR' = take kr preR @ [nr]" by blast
        from Cons.prems(1) A \<open>ContainsAddress mr x\<close> rd ad True
        have "NextScan_merge W k p1 (preR' @ R) (preA' @ outs) (kr + 1) ka1 (length preR')
                (length preA') = Inr (rs, v, kr', ka', p')"
          by (simp add: step sw len v1 a1)
        from Cons.IH [OF this _ ka1_le] Cons.prems(2) len
        have ih: "take kr' rs = take (Suc kr) preR' @ KR" "kr' = kr + 1 + length KR"
              "take ka' v = take ka1 preA' @ KA" "ka' = ka1 + length KA"
          unfolding p1_eq KR_def KA_def by auto
        from True f have ne: "kept \<noteq> []" by simp
        show ?thesis unfolding mk using ne ih tk tk1 ka1 nr by simp
      next
        case False
        from Cons.prems(1) A \<open>ContainsAddress mr x\<close> rd ad False
        have "NextScan_merge W k p1 ((preR @ [mr]) @ R) (preA' @ outs) kr ka1
                (length (preR @ [mr])) (length preA') = Inr (rs, v, kr', ka', p')"
          by (simp add: step v1 a1)
        from Cons.IH [OF this _ ka1_le] Cons.prems(2)
        have ih: "take kr' rs = take kr (preR @ [mr]) @ KR" "kr' = kr + length KR"
              "take ka' v = take ka1 preA' @ KA" "ka' = ka1 + length KA"
          unfolding p1_eq KR_def KA_def by auto
        from False f have e: "kept = []" by simp
        show ?thesis unfolding mk using e ih tk1 ka1 Cons.prems(2) by simp
      qed
    qed
  qed
qed

lemma resize_take:
  "take n xs = ys \<Longrightarrow> length ys = n \<Longrightarrow> resize n d xs = ys"
  by (auto simp: resize_def)

lemma NextScan_restricted_Inr:
  assumes "NextScan_restricted W k p regions valid = Inr (rs, v, p')"
  shows "rs = fst (merge_kept W k p regions valid) \<and> v = snd (merge_kept W k p regions valid)"
proof -
  from assms obtain rs0 v0 kr ka where
    m: "NextScan_merge W k p ([] @ regions) ([] @ valid) 0 0 (length ([]::MemoryRegion list))
          (length ([]::IntPtr list)) = Inr (rs0, v0, kr, ka, p')"
    and rs: "rs = resize kr empty_region rs0" and v: "v = resize ka 0 v0"
    by (auto simp: NextScan_restricted_def split: sum.splits)
  from NextScan_merge_Inr [OF m] show ?thesis
    unfolding rs v by (auto intro!: resize_take)
qed

lemma NextScan_Inr:
  assumes "NextScan W k p regions = Inr (v, rs, p')"
  shows "v = concat (map (matches W k p) regions)
         \<and> rs = map (refreshed p) [mr \<leftarrow> regions. matches W k p mr \<noteq> []]
         \<and> p' = p\<lparr>reads := reads p @ map read_of regions\<rparr>"
proof -
  from assms obtain rs0 ns where
    m: "NextScan_regions W k p ([] @ regions) [] 0 (length ([]::MemoryRegion list))
          = Inr (v, rs0, ns, p')"
    and rs: "rs = resize ns empty_region rs0"
    by (auto simp: NextScan_def split: sum.splits)
  from NextScan_regions_Inr [OF m] show ?thesis
    unfolding rs by (auto intro!: resize_take)
qed


subsection \<open>Order, ranges and success\<close>

lemma sorted_wrt_subseq:
  "subseq xs ys \<Longrightarrow> sorted_wrt P ys \<Longrightarrow> sorted_wrt P xs"
proof (induction xs ys rule: list_emb.induct)
  case (list_emb_Nil ys)
  then show ?case by simp
next
  case (list_emb_Cons xs ys y)
  then show ?case by simp
next
  case (list_emb_Cons2 x y xs ys)
  have "set xs \<subseteq> set ys"
    using list_emb_Cons2.hyps(2) by (auto dest: list_emb_set)
  with list_emb_Cons2 show ?case by auto
qed

lemma region_span_refreshed [simp]: "region_span (refreshed p mr) = region_span mr"
  by (simp add: region_span_def refreshed_def)

lemma enumerated_reads [simp]: "enumerated fuel (p\<lparr>reads := l\<rparr>) addr = enumerated fuel p addr"
  by (induction fuel arbitrary: addr) (simp_all add: VirtualQueryEx_def split: vq_result.splits)

lemma InitialScan_loop_subseq:
  "InitialScan_loop fuel p addr acc = Some (Inr (regions, p')) \<Longrightarrow>
   \<exists>ks. regions = acc @ ks \<and> subseq (map region_span ks) (map info_span (enumerated fuel p addr))"
proof (induction fuel arbitrary: p addr acc)
  case 0
  then show ?case by simp
next
  case (Suc fuel)
  show ?case
  proof (cases "VirtualQueryEx p addr")
    case (VQ_Fail ec)
    with Suc.prems show ?thesis by (auto split: if_splits)
  next
    case (VQ_Ok m)
    let ?addr' = "addr + RegionSize m"
    show ?thesis
    proof (cases "State m \<noteq> MEM_COMMIT \<or>
                  (Protect m \<noteq> PAGE_READWRITE \<and> Protect m \<noteq> PAGE_EXECUTE_READWRITE)")
      case True
      with Suc.prems VQ_Ok
      have "InitialScan_loop fuel p ?addr' acc = Some (Inr (regions, p'))"
        by (auto simp: Let_def split: if_splits)
      from Suc.IH [OF this] VQ_Ok show ?thesis by auto
    next
      case False
      let ?mr = "\<lparr>base_address = BaseAddress m, length_mr = RegionSize m, data = []\<rparr>"
      from False Suc.prems VQ_Ok obtain n region p1 where
        rd: "ReadRegionData p \<lparr>base_address = base_address ?mr, length_mr = length_mr ?mr, data = []\<rparr>
               = Inr (n, region, p1)"
        and rec: "InitialScan_loop fuel p1 ?addr' (acc @ [region]) = Some (Inr (regions, p'))"
        by (auto simp: Let_def split: sum.splits if_splits)
      from ReadRegionData_Inr [OF rd] have region: "region = refreshed p ?mr"
        and p1: "p1 = p\<lparr>reads := reads p @ [(BaseAddress m, unat (RegionSize m))]\<rparr>" by simp_all
      have sp: "region_span region = info_span m"
        by (simp add: region region_span_def info_span_def refreshed_def)
      from Suc.IH [OF rec] obtain ks where
        "regions = (acc @ [region]) @ ks"
        "subseq (map region_span ks) (map info_span (enumerated fuel p ?addr'))"
        unfolding p1 by auto
      with VQ_Ok sp show ?thesis by (intro exI [of _ "region # ks"]) simp
    qed
  qed
qed

lemma InitialScan_ascending:
  assumes "InitialScan fuel p = Some (Inr (regions, p'))"
    and "ascending (map info_span (enumerated fuel p 0))"
  shows "session_ascending regions"
proof -
  from InitialScan_loop_subseq [OF assms(1) [unfolded InitialScan_def]]
  have "subseq (map region_span regions) (map info_span (enumerated fuel p 0))" by simp
  then show ?thesis
    using assms(2) unfolding session_ascending_def ascending_def by (rule sorted_wrt_subseq)
qed

lemma merge_kept_regions:
  "\<exists>R'. subseq R' R \<and> fst (merge_kept W k p R A) = map (refreshed p) R'"
proof (induction W k p R A rule: merge_kept.induct)
  case (1 W k p A)
  then show ?case by simp
next
  case (2 W k p mr R)
  then show ?case by simp
next
  case (3 W k p mr R x A)
  show ?case
  proof (cases "ContainsAddress mr x")
    case False
    with 3(1) obtain R' where "subseq R' R" "fst (merge_kept W k p R (x # A)) = map (refreshed p) R'"
      by auto
    with False show ?thesis by (intro exI [of _ R']) (simp add: list_emb_Cons)

  next
    case True
    from 3(2) [OF _ refl] True obtain R' where
      R': "subseq R' R"
          "fst (merge_kept W k p R (dropWhile (ContainsAddress mr) A)) = map (refreshed p) R'"
      by auto
    show ?thesis
    proof (cases "filter (passes W k p mr) (x # takeWhile (ContainsAddress mr) A) = []")
      case True
      with \<open>ContainsAddress mr x\<close> R' show ?thesis
        by (intro exI [of _ R']) (simp add: Let_def list_emb_Cons)
    next
      case False
      with \<open>ContainsAddress mr x\<close> R' show ?thesis
        by (intro exI [of _ "mr # R'"]) (simp add: Let_def)
    qed
  qed
qed

lemma merge_kept_addresses: "subseq (snd (merge_kept W k p R A)) A"
proof (induction W k p R A rule: merge_kept.induct)
  case (1 W k p A)
  then show ?case by simp
next
  case (2 W k p mr R)
  then show ?case by simp
next
  case (3 W k p mr R x A)
  show ?case
  proof (cases "ContainsAddress mr x")
    case False
    with 3(1) show ?thesis by simp
  next
    case True
    let ?ins = "x # takeWhile (ContainsAddress mr) A"
    let ?outs = "dropWhile (ContainsAddress mr) A"
    from 3(2) [OF _ refl] True have ih: "subseq (snd (merge_kept W k p R ?outs)) ?outs" by simp
    have "subseq (filter (passes W k p mr) ?ins) ?ins" by (rule subseq_filter_left)
    from list_emb_append_mono [OF this ih]
    have "subseq (filter (passes W k p mr) ?ins @ snd (merge_kept W k p R ?outs)) (x # A)"
      by simp
    with True show ?thesis by (simp add: Let_def)
  qed
qed

lemma merge_kept_witnessed:
  "mr' \<in> set (fst (merge_kept W k p R A)) \<Longrightarrow>
   \<exists>mr\<in>set R. mr' = refreshed p mr \<and> (\<exists>x\<in>set A. ContainsAddress mr x \<and> passes W k p mr x)"
proof (induction W k p R A rule: merge_kept.induct)
  case (1 W k p A)
  then show ?case by simp
next
  case (2 W k p mr R)
  then show ?case by simp
next
  case (3 W k p mr R x A)
  show ?case
  proof (cases "ContainsAddress mr x")
    case False
    with 3(1,3) show ?thesis by auto
  next
    case True
    let ?ins = "x # takeWhile (ContainsAddress mr) A"
    let ?outs = "dropWhile (ContainsAddress mr) A"
    let ?kept = "filter (passes W k p mr) ?ins"
    from 3(3) True consider
      (here) "?kept \<noteq> []" "mr' = refreshed p mr" |
      (later) "mr' \<in> set (fst (merge_kept W k p R ?outs))"
      by (auto simp: Let_def split: if_splits)
    then show ?thesis
    proof cases
      case here
      then obtain y where y: "y \<in> set ?ins" "passes W k p mr y"
        by (metis filter_False)
      have "ContainsAddress mr y"
        using y(1) True by (auto dest: set_takeWhileD)
      moreover have "y \<in> set (x # A)" using y(1) by (auto dest: set_takeWhileD)
      ultimately show ?thesis using here(2) y(2) by auto
    next
      case later
      from 3(2) [OF _ refl later] True obtain m z where
        "m \<in> set R" "mr' = refreshed p m" "z \<in> set ?outs" "ContainsAddress m z" "passes W k p m z"
        by auto
      moreover have "z \<in> set (x # A)" using \<open>z \<in> set ?outs\<close> by (auto dest: set_dropWhileD)
      ultimately show ?thesis by auto
    qed
  qed
qed

lemma slot_offset_less:
  assumes "i < n div W"
  shows "i * W < (n::nat)"
proof -
  have W: "0 < W" using assms by (cases "W = 0") auto
  have "Suc i \<le> n div W" using assms by simp
  then have "Suc i * W \<le> (n div W) * W" by (rule mult_le_mono1)
  also have "\<dots> \<le> n" by simp
  finally show ?thesis using W by simp
qed

lemma slot_address_unat:
  assumes "in_address_space mr" and "i < unat (length_mr mr) div W"
  shows "unat (base_address mr + of_nat (i * W)) = unat (base_address mr) + i * W"
proof -
  have lt: "i * W < unat (length_mr mr)" using assms(2) by (rule slot_offset_less)
  have "unat (length_mr mr) < 2 ^ 64" using unsigned_less [of "length_mr mr"] by simp
  with lt have "i * W < 2 ^ LENGTH(64)" by simp
  then have u: "unat (of_nat (i * W) :: IntPtr) = i * W"
    by (rule of_nat_inverse [OF refl])
  have "unat (base_address mr) + unat (of_nat (i * W) :: IntPtr) < 2 ^ LENGTH(64)"
    using assms(1) lt u by (simp add: in_address_space_def)
  then have "unat (base_address mr + of_nat (i * W)) =
             unat (base_address mr) + unat (of_nat (i * W) :: IntPtr)"
    by (rule unat_add_lem [THEN iffD1])
  with u show ?thesis by simp
qed

lemma set_matches:
  "set (matches W k p mr) =
     {base_address mr + of_nat (i * W) | i.
        i < unat (length_mr mr) div W \<and>
        k (slot_at W (data mr) i) (slot_at W (fresh_buffer p mr) i)}"
  by (auto simp: matches_def)

lemma matches_bounds:
  assumes "x \<in> set (matches W k p mr)" and "in_address_space mr"
  shows "unat (base_address mr) \<le> unat x \<and> unat x < unat (base_address mr) + unat (length_mr mr)"
proof -
  from assms(1) obtain i where i: "i < unat (length_mr mr) div W"
    and x: "x = base_address mr + of_nat (i * W)"
    by (auto simp: set_matches)
  from slot_address_unat [OF assms(2) i] slot_offset_less [OF i] x show ?thesis by simp
qed

lemma matches_sorted:
  assumes "in_address_space mr"
  shows "sorted_wrt (<) (matches W k p mr)"
proof -
  let ?n = "unat (length_mr mr) div W"
  let ?f = "\<lambda>i. base_address mr + of_nat (i * W)"
  have W: "0 < W" if "i < ?n" for i using that by (cases "W = 0") auto
  have "sorted_wrt (\<lambda>i j. ?f i < ?f j) [0..<?n]"
  proof (rule sorted_wrt_mono_rel [where P = "(<)"])
    fix i j assume "i \<in> set [0..<?n]" "j \<in> set [0..<?n]" "i < j"
    then have i: "i < ?n" and j: "j < ?n" by simp_all
    from W [OF i] \<open>i < j\<close> have "i * W < j * W" by simp
    then show "?f i < ?f j"
      using slot_address_unat [OF assms i] slot_address_unat [OF assms j]
      by (simp add: word_less_nat_alt)
  next
    show "sorted_wrt (<) [0..<?n]" by simp
  qed
  then show ?thesis
    by (simp add: matches_def sorted_wrt_map sorted_wrt_filter)
qed

lemma session_ascending_Cons:
  "session_ascending (mr # R) \<longleftrightarrow>
     (\<forall>m\<in>set R. span_before (region_span mr) (region_span m)) \<and> session_ascending R"
  by (auto simp: session_ascending_def ascending_def)

lemma concat_matches_sorted:
  "session_ascending R \<Longrightarrow> \<forall>mr\<in>set R. in_address_space mr \<Longrightarrow>
   sorted_wrt (<) (concat (map (matches W k p) R))"
proof (induction R)
  case Nil
  then show ?case by simp
next
  case (Cons mr R)
  have across: "x < y" if x: "x \<in> set (matches W k p mr)" and m: "m \<in> set R"
    and y: "y \<in> set (matches W k p m)" for x y m
  proof -
    from Cons.prems m have sb: "span_before (region_span mr) (region_span m)"
      by (simp add: session_ascending_Cons)
    from matches_bounds [OF x] Cons.prems(2)
    have bx: "unat (base_address mr) \<le> unat x"
      "unat x < unat (base_address mr) + unat (length_mr mr)" by simp_all
    from matches_bounds [OF y] Cons.prems(2) m
    have yb: "unat (base_address m) \<le> unat y"
      "unat y < unat (base_address m) + unat (length_mr m)" by simp_all
    from sb have lt: "unat (base_address mr) < unat (base_address m)"
      and disj: "span_range (region_span mr) \<inter> span_range (region_span m) = {}"
      by (simp_all add: span_before_def region_span_def word_less_nat_alt)
    have inm: "unat (base_address m) \<in> span_range (region_span m)"
      using yb by (simp add: span_range_def region_span_def)
    have "unat x < unat y"
    proof (rule ccontr)
      assume "\<not> unat x < unat y"
      with yb(1) bx(2) lt have "unat (base_address m) \<in> span_range (region_span mr)"
        by (simp add: span_range_def region_span_def)
      with inm disj show False by blast
    qed
    then show ?thesis by (simp add: word_less_nat_alt)
  qed
  from Cons have "sorted_wrt (<) (concat (map (matches W k p) R))"
    by (simp add: session_ascending_Cons)
  moreover have "sorted_wrt (<) (matches W k p mr)"
    using Cons.prems(2) by (simp add: matches_sorted)
  ultimately show ?case using across by (auto simp: sorted_wrt_append)
qed

lemma session_ascending_inj:
  assumes "session_ascending R" and "m \<in> set R" and "m' \<in> set R"
    and "base_address m = base_address m'"
  shows "m = m'"
proof -
  have "sorted_wrt (\<lambda>a b. base_address a < base_address b) R"
    using assms(1) unfolding session_ascending_def ascending_def sorted_wrt_map
    by (rule sorted_wrt_mono_rel [rotated]) (simp add: span_before_def region_span_def)
  then have "sorted_wrt (<) (map base_address R)" by (simp add: sorted_wrt_map)
  then have "distinct (map base_address R)" by (simp add: strict_sorted_iff)
  then have "inj_on base_address (set R)" by (simp add: distinct_map)
  with assms(2-4) show ?thesis by (auto dest: inj_onD)
qed

lemma base_refreshed [simp]: "base_address (refreshed p mr) = base_address mr"
  by (simp add: refreshed_def)

lemma length_fresh_buffer [simp]: "length (fresh_buffer p mr) = unat (length_mr mr)"
  by (simp add: fresh_buffer_def obtained_def Let_def)

lemma slot_in_range:
  assumes "i < count" and "count * W \<le> length buf"
  shows "slot W buf i = Some (slot_at W buf i)"
proof -
  from assms(1) have "Suc i \<le> count" by simp
  then have "Suc i * W \<le> count * W" by (rule mult_le_mono1)
  with assms(2) show ?thesis by (simp add: slot_def)
qed

lemma NextScan_slots_total:
  "count * W \<le> length old \<Longrightarrow> count * W \<le> length new \<Longrightarrow>
   \<exists>res. NextScan_slots W k old new base count i found valid = Inr res"
proof (induction W k old new base count i found valid rule: NextScan_slots.induct)
  case (1 W k old new base count i found valid)
  note step = NextScan_slots.simps [of W k old new base count i found valid]
  show ?case
  proof (cases "i < count")
    case False
    then show ?thesis by (simp add: step)
  next
    case True
    note so = slot_in_range [OF True "1.prems"(1)]
    note sn = slot_in_range [OF True "1.prems"(2)]
    show ?thesis
    proof (cases "k (slot_at W old i) (slot_at W new i)")
      case k: True
      from "1.IH"(1) [OF True so sn k "1.prems"] True k show ?thesis
        by (simp add: step so sn)
    next
      case k: False
      from "1.IH"(2) [OF True so sn k "1.prems"] True k show ?thesis
        by (simp add: step so sn)
    qed
  qed
qed

lemma readable_reads [simp]: "readable (p\<lparr>reads := l\<rparr>) mr = readable p mr"
  by (simp add: readable_def hard_error_def)

lemma ReadRegionData_readable:
  "readable p mr \<Longrightarrow>
   ReadRegionData p \<lparr>base_address = base_address mr, length_mr = length_mr mr, data = []\<rparr>
     = Inr (length (obtained p (base_address mr) (unat (length_mr mr))), refreshed p mr,
            p\<lparr>reads := reads p @ [read_of mr]\<rparr>)"
  by (simp add: ReadRegionData_def ReadProcessMemory_def readable_def hard_error_def
        refreshed_def fresh_buffer_def obtained_def read_of_def Let_def)

lemma NextScan_regions_total:
  "\<forall>mr\<in>set R. readable p mr \<and> unat (length_mr mr) \<le> length (data mr) \<Longrightarrow>
   ns \<le> length pre \<Longrightarrow>
   \<exists>res. NextScan_regions W k p (pre @ R) valid ns (length pre) = Inr res"
proof (induction R arbitrary: pre valid ns p)
  case Nil
  then show ?case by (simp add: NextScan_regions.simps)
next
  case (Cons mr R)
  note step = NextScan_regions_step [of W k p pre mr R valid ns]
  let ?p1 = "p\<lparr>reads := reads p @ [read_of mr]\<rparr>"
  let ?count = "unat (length_mr mr) div W"
  from Cons.prems(1) have rd: "readable p mr" and len: "unat (length_mr mr) \<le> length (data mr)"
    by simp_all
  have c: "?count * W \<le> unat (length_mr mr)" by simp
  from c len have c1: "?count * W \<le> length (data mr)" by (rule order_trans)
  from c have c2: "?count * W \<le> length (data (refreshed p mr))" by (simp add: refreshed_def)
  from NextScan_slots_total [OF c1 c2] obtain f v1 where
    sl: "NextScan_slots W k (data mr) (data (refreshed p mr)) (base_address mr)
           ?count 0 False valid = Inr (f, v1)"
    by (metis surj_pair)
  have rest: "\<forall>m\<in>set R. readable ?p1 m \<and> unat (length_mr m) \<le> length (data m)"
    using Cons.prems(1) by simp
  show ?case
  proof (cases f)
    case True
    from swap_to_front [OF Cons.prems(2), of "refreshed p mr" R] obtain pre' where
      sw: "(if ns \<noteq> length pre then swap (pre @ refreshed p mr # R) ns (length pre)
            else pre @ refreshed p mr # R) = pre' @ R"
      and l: "length pre' = Suc (length pre)" by blast
    from Cons.IH [OF rest, of "ns + 1" pre' v1] Cons.prems(2) l
    obtain res where "NextScan_regions W k ?p1 (pre' @ R) v1 (ns + 1) (length pre') = Inr res"
      by auto
    moreover have "NextScan_regions W k p (pre @ mr # R) valid ns (length pre) =
                   NextScan_regions W k ?p1 (pre' @ R) v1 (ns + 1) (length pre')"
      unfolding step ReadRegionData_readable [OF rd] using sl True sw l by simp
    ultimately show ?thesis by metis
  next
    case False
    from Cons.IH [OF rest, of ns "pre @ [mr]" v1] Cons.prems(2)
    obtain res where "NextScan_regions W k ?p1 ((pre @ [mr]) @ R) v1 ns (length (pre @ [mr])) = Inr res"
      by auto
    moreover have "NextScan_regions W k p (pre @ mr # R) valid ns (length pre) =
                   NextScan_regions W k ?p1 ((pre @ [mr]) @ R) v1 ns (length (pre @ [mr]))"
      unfolding step ReadRegionData_readable [OF rd] using sl False by simp
    ultimately show ?thesis by metis
  qed
qed

lemma NextScan_succeeds:
  assumes "\<forall>mr\<in>set regions. readable p mr \<and> unat (length_mr mr) \<le> length (data mr)"
  shows "NextScan W k p regions =
           Inr (concat (map (matches W k p) regions),
                map (refreshed p) [mr \<leftarrow> regions. matches W k p mr \<noteq> []],
                p\<lparr>reads := reads p @ map read_of regions\<rparr>)"
proof -
  from NextScan_regions_total [OF assms, of 0 "[]" W k "[]"]
  obtain res0 where "NextScan_regions W k p regions [] 0 0 = Inr res0"
    by auto
  then obtain res where r: "NextScan W k p regions = Inr res"
    by (cases res0) (simp add: NextScan_def split: prod.splits)
  obtain v rs p' where res: "res = (v, rs, p')" by (metis surj_pair)
  from NextScan_Inr [OF r [unfolded res]] r res show ?thesis by simp
qed

subsection \<open>Byte ranges, ReRead\<close>


lemma ContainsAddress_byte_range:
  assumes "ContainsAddress mr x"
  shows "unat x \<in> byte_range mr"
proof -
  from assms have "unat (base_address mr) \<le> unat x"
    and lt: "unat x < unat (base_address mr + length_mr mr)"
    by (simp_all add: ContainsAddress_def word_le_nat_alt word_less_nat_alt)
  moreover have "unat (base_address mr + length_mr mr) \<le> unat (base_address mr) + unat (length_mr mr)"
    by (simp add: unat_word_ariths)
  ultimately show ?thesis
    by (simp add: byte_range_def span_range_def region_span_def)
qed

lemma replicate_numeral: "replicate (numeral k) x = x # replicate (pred_numeral k) x"
  by (simp add: numeral_eq_Suc)

lemmas eval_defs = replicate_numeral NextScan_def NextScan_regions.simps NextScan_slots.simps ReadRegionData_def
  ReadProcessMemory_def slot_def slot_at_def resize_def swap_def example_region_def
  example_process_def partial_copy_process_def int32_slots_def equals_int32_def int32_of_def
  NextScan_restricted_def NextScan_merge.simps NextScan_addresses.simps ContainsAddress_def
  empty_region_def Let_def ERROR_PARTIAL_COPY_def ERROR_INVALID_PARAMETER_def

lemmas order_defs = session_ascending_def ascending_def span_before_def span_range_def
  region_span_def info_span_def example_region_def

lemma ReRead_cases:
  "ReRead W p obj =
     (if hard_error p (address obj) W
      then Inl (ReadFailure (rpm_last_error (memory p (address obj) W)) (address obj))
      else if length (obtained p (address obj) W) < W then Inl ShortRead
      else Inr (obj\<lparr>value_mo := obtained p (address obj) W\<rparr>,
                p\<lparr>reads := reads p @ [(address obj, W)]\<rparr>))"
  by (simp add: ReRead_def ReadProcessMemory_def hard_error_def obtained_def Let_def)

subsection \<open>The restricted scan: success, errors, exact result\<close>

lemma slot_ok_Some:
  "slot_ok W mr x \<Longrightarrow> unat (length_mr mr) \<le> length buf \<Longrightarrow>
   slot W buf (translated_index W mr x) = Some (slot_at W buf (translated_index W mr x))"
  by (simp add: slot_ok_def slot_def)

lemma NextScan_addresses_total:
  "\<forall>y\<in>set (x # takeWhile (ContainsAddress mr) A). slot_ok W mr y \<Longrightarrow>
   unat (length_mr mr) \<le> length (data mr) \<Longrightarrow> unat (length_mr mr) \<le> length (data nr) \<Longrightarrow>
   ka \<le> length pre \<Longrightarrow>
   \<exists>res. NextScan_addresses W k mr nr (pre @ x # A) ka (length pre) found = Inr res"
proof (induction A arbitrary: pre x ka found)
  case Nil
  note step = NextScan_addresses_step [of W k mr nr pre x "[]" ka found]
  from Nil.prems have ok: "slot_ok W mr x" by simp
  show ?case
    unfolding step slot_ok_Some [OF ok Nil.prems(2)] slot_ok_Some [OF ok Nil.prems(3)]
    by (simp add: Let_def swap_def)
next
  case (Cons y A)
  note step = NextScan_addresses_step [of W k mr nr pre x "y # A" ka found]
  from Cons.prems have ok: "slot_ok W mr x" by simp
  let ?kp = "k (slot_at W (data mr) (translated_index W mr x))
               (slot_at W (data nr) (translated_index W mr x))"
  let ?ka1 = "if ?kp then ka + 1 else ka"
  from swap_addr_to_front [OF Cons.prems(4), of ?kp x "y # A"] obtain pre' where
    sw: "(if ?kp \<and> ka \<noteq> length pre then swap (pre @ x # y # A) ka (length pre)
          else pre @ x # y # A) = pre' @ y # A"
    and len: "length pre' = Suc (length pre)"
    by auto
  have nth: "(pre' @ y # A) ! Suc (length pre) = y"
    using len by (simp add: nth_append)
  have ka1: "?ka1 \<le> length pre'" using Cons.prems(4) len by simp
  show ?case
  proof (cases "ContainsAddress mr y")
    case True
    with Cons.prems(1) have "\<forall>z\<in>set (y # takeWhile (ContainsAddress mr) A). slot_ok W mr z"
      by simp
    from Cons.IH [OF this Cons.prems(2,3) ka1, of "?kp \<or> found"]
    obtain res where
      "NextScan_addresses W k mr nr (pre' @ y # A) ?ka1 (length pre') (?kp \<or> found) = Inr res"
      by blast
    moreover have "NextScan_addresses W k mr nr (pre @ x # y # A) ka (length pre) found =
       NextScan_addresses W k mr nr (pre' @ y # A) ?ka1 (length pre') (?kp \<or> found)"
      unfolding step slot_ok_Some [OF ok Cons.prems(2)] slot_ok_Some [OF ok Cons.prems(3)]
      using True by (simp add: Let_def sw len nth)
    ultimately show ?thesis by metis
  next
    case False
    show ?thesis
      unfolding step slot_ok_Some [OF ok Cons.prems(2)] slot_ok_Some [OF ok Cons.prems(3)]
      using False by (simp add: Let_def sw len nth)
  qed
qed

lemma NextScan_merge_total:
  "\<forall>mr\<in>set R. readable p mr \<and> unat (length_mr mr) \<le> length (data mr) \<and>
       (\<forall>x\<in>set A. ContainsAddress mr x \<longrightarrow> slot_ok W mr x) \<Longrightarrow>
   kr \<le> length preR \<Longrightarrow> ka \<le> length preA \<Longrightarrow>
   \<exists>res. NextScan_merge W k p (preR @ R) (preA @ A) kr ka (length preR) (length preA) = Inr res"
proof (induction R arbitrary: preR preA A kr ka p)
  case Nil
  then show ?case by (simp add: NextScan_merge_exit)
next
  case (Cons mr R)
  show ?case
  proof (cases A)
    case Nil
    then show ?thesis by (simp add: NextScan_merge_exit)
  next
    case (Cons x A')
    note A = Cons
    note step = NextScan_merge_step [of W k p preR mr R preA x A' kr ka]
    from Cons.prems(1) have rd: "readable p mr" and len: "unat (length_mr mr) \<le> length (data mr)"
      and rest: "\<forall>m\<in>set R. readable p m \<and> unat (length_mr m) \<le> length (data m) \<and>
                   (\<forall>x\<in>set A. ContainsAddress m x \<longrightarrow> slot_ok W m x)"
      by simp_all
    show ?thesis
    proof (cases "ContainsAddress mr x")
      case False
      from Cons.IH [OF rest, of kr "preR @ [mr]" ka preA] Cons.prems(2,3)
      obtain res where
        "NextScan_merge W k p ((preR @ [mr]) @ R) (preA @ A) kr ka (length (preR @ [mr]))
           (length preA) = Inr res" by auto
      moreover have "NextScan_merge W k p (preR @ mr # R) (preA @ x # A') kr ka (length preR)
             (length preA) =
           NextScan_merge W k p ((preR @ [mr]) @ R) (preA @ A) kr ka (length (preR @ [mr]))
             (length preA)"
        unfolding step using False A by simp
      ultimately show ?thesis unfolding A by metis
    next
      case True
      let ?p1 = "p\<lparr>reads := reads p @ [read_of mr]\<rparr>"
      let ?nr = "refreshed p mr"
      define outs where "outs = dropWhile (ContainsAddress mr) A'"
      have oks: "\<forall>y\<in>set (x # takeWhile (ContainsAddress mr) A'). slot_ok W mr y"
        using Cons.prems(1) True A by (auto dest: set_takeWhileD)
      have lnr: "unat (length_mr mr) \<le> length (data ?nr)" by (simp add: refreshed_def)
      from NextScan_addresses_total [OF oks len lnr Cons.prems(3), of k False]
      obtain v1 ka1 a1 f where
        ad: "NextScan_addresses W k mr ?nr (preA @ x # A') ka (length preA) False
               = Inr (v1, ka1, a1, f)"
        by (metis surj_pair)
      have "data ?nr = fresh_buffer p mr" by (simp add: refreshed_def)
      from NextScan_addresses_Inr [OF ad Cons.prems(3) this] obtain preA' where
        v1: "v1 = preA' @ outs" and a1: "a1 = length preA'"
        and ka1: "ka1 = ka + length (filter (passes W k p mr) (x # takeWhile (ContainsAddress mr) A'))"
        and tk1: "take ka1 preA' = take ka preA @
                    filter (passes W k p mr) (x # takeWhile (ContainsAddress mr) A')"
        unfolding outs_def by auto
      have ka1_le: "ka1 \<le> length preA'"
      proof -
        have "length (take ka1 preA') = ka1" using tk1 ka1 Cons.prems(3) by simp
        then show ?thesis by simp
      qed
      have sub: "set outs \<subseteq> set A" using A by (auto simp: outs_def dest: set_dropWhileD)
      have rest1: "\<forall>m\<in>set R. readable ?p1 m \<and> unat (length_mr m) \<le> length (data m) \<and>
                   (\<forall>x\<in>set outs. ContainsAddress m x \<longrightarrow> slot_ok W m x)"
        using rest sub by auto
      show ?thesis
      proof (cases f)
        case f: True
        from swap_to_front [OF Cons.prems(2), of ?nr R] obtain preR' where
          sw: "(if kr \<noteq> length preR then swap (preR @ ?nr # R) kr (length preR) else preR @ ?nr # R)
                 = preR' @ R"
          and l: "length preR' = Suc (length preR)" by blast
        from Cons.IH [OF rest1, of "kr + 1" preR' ka1 preA'] Cons.prems(2) l ka1_le
        obtain res where
          "NextScan_merge W k ?p1 (preR' @ R) (preA' @ outs) (kr + 1) ka1 (length preR')
             (length preA') = Inr res" by auto
        moreover have "NextScan_merge W k p (preR @ mr # R) (preA @ x # A') kr ka (length preR)
             (length preA) =
           NextScan_merge W k ?p1 (preR' @ R) (preA' @ outs) (kr + 1) ka1 (length preR')
             (length preA')"
          unfolding step ReadRegionData_readable [OF rd] using True ad f sw l v1 a1 by simp
        ultimately show ?thesis unfolding A by metis
      next
        case f: False
        from Cons.IH [OF rest1, of kr "preR @ [mr]" ka1 preA'] Cons.prems(2) ka1_le
        obtain res where
          "NextScan_merge W k ?p1 ((preR @ [mr]) @ R) (preA' @ outs) kr ka1 (length (preR @ [mr]))
             (length preA') = Inr res" by auto
        moreover have "NextScan_merge W k p (preR @ mr # R) (preA @ x # A') kr ka (length preR)
             (length preA) =
           NextScan_merge W k ?p1 ((preR @ [mr]) @ R) (preA' @ outs) kr ka1 (length (preR @ [mr]))
             (length preA')"
          unfolding step ReadRegionData_readable [OF rd] using True ad f v1 a1 by simp
        ultimately show ?thesis unfolding A by metis
      qed
    qed
  qed
qed

lemma NextScan_restricted_succeeds:
  assumes "\<forall>mr\<in>set regions. readable p mr \<and> unat (length_mr mr) \<le> length (data mr) \<and>
       (\<forall>x\<in>set valid. ContainsAddress mr x \<longrightarrow> slot_ok W mr x)"
  shows "\<exists>p'. NextScan_restricted W k p regions valid =
           Inr (fst (merge_kept W k p regions valid), snd (merge_kept W k p regions valid), p')"
proof -
  from NextScan_merge_total [OF assms, of 0 "[]" 0 "[]" k]
  obtain res0 where "NextScan_merge W k p regions valid 0 0 0 0 = Inr res0" by auto
  then obtain res where r: "NextScan_restricted W k p regions valid = Inr res"
    by (cases res0) (simp add: NextScan_restricted_def split: prod.splits)
  obtain rs v p' where res: "res = (rs, v, p')" by (metis surj_pair)
  from NextScan_restricted_Inr [OF r [unfolded res]] r res show ?thesis by auto
qed

lemma NextScan_slots_error:
  "NextScan_slots W k old new base count i found valid = Inl e \<Longrightarrow> e = OutOfRange"
proof (induction W k old new base count i found valid rule: NextScan_slots.induct)
  case (1 W k old new base count i found valid)
  from "1.prems" show ?case
    by (subst (asm) NextScan_slots.simps) (auto split: if_splits option.splits intro: "1.IH")
qed

lemma ReadRegionData_error:
  "ReadRegionData p mr = Inl e \<Longrightarrow> \<exists>ec a. e = ReadFailure ec a"
  by (auto simp: ReadRegionData_def ReadProcessMemory_def Let_def split: if_splits)

lemma NextScan_regions_error:
  "NextScan_regions W k p regions valid ns r = Inl e \<Longrightarrow> e \<noteq> ShortRead"
proof (induction W k p regions valid ns r rule: NextScan_regions.induct)
  case (1 W k p regions valid ns r)
  note step = NextScan_regions.simps [of W k p regions valid ns r]
  let ?mr = "\<lparr>base_address = base_address (regions ! r), length_mr = length_mr (regions ! r),
              data = []\<rparr>"
  show ?case
  proof (cases "r < length regions")
    case False
    with "1.prems" show ?thesis by (simp add: step)
  next
    case True
    show ?thesis
    proof (cases "ReadRegionData p ?mr")
      case (Inl e')
      with True "1.prems" have "e = e'" by (simp add: step)
      with ReadRegionData_error [OF Inl] show ?thesis by auto
    next
      case (Inr x)
      obtain n nr p1 where x: "x = (n, nr, p1)" by (metis surj_pair)
      show ?thesis
      proof (cases "NextScan_slots W k (data (regions ! r)) (data nr) (base_address nr)
                      (unat (length_mr (regions ! r)) div W) 0 False valid")
        case (Inl e')
        with True Inr x "1.prems" have "e = e'" by (simp add: step)
        with NextScan_slots_error [OF Inl] show ?thesis by simp
      next
        case sl: (Inr y)
        obtain f v1 where y: "y = (f, v1)" by (metis surj_pair)
        show ?thesis
        proof (cases f)
          case f: True
          from True Inr x sl y f "1.prems"
          have "NextScan_regions W k p1
                  (let regions' = regions[r := nr]
                   in if ns \<noteq> r then swap regions' ns r else regions') v1 (ns + 1) (r + 1) = Inl e"
            by (simp add: step)
          from "1.IH"(1) [OF True Inr [unfolded x] refl refl sl [unfolded y] refl f this]
          show ?thesis .
        next
          case f: False
          from True Inr x sl y f "1.prems"
          have "NextScan_regions W k p1 regions v1 ns (r + 1) = Inl e"
            by (simp add: step)
          from "1.IH"(2) [OF True Inr [unfolded x] refl refl sl [unfolded y] refl f this]
          show ?thesis .
        qed
      qed
    qed
  qed
qed

lemma NextScan_addresses_error:
  "NextScan_addresses W k mr nr valid ka a found = Inl e \<Longrightarrow> e = OutOfRange"
proof (induction W k mr nr valid ka a found rule: NextScan_addresses.induct)
  case (1 W k mr nr valid ka a found)
  from "1.prems" show ?case
    by (subst (asm) NextScan_addresses.simps)
       (force simp: Let_def split: if_splits option.splits intro: "1.IH")
qed

lemma NextScan_merge_error:
  "NextScan_merge W k p regions valid kr ka r a = Inl e \<Longrightarrow> e \<noteq> ShortRead"
proof (induction W k p regions valid kr ka r a rule: NextScan_merge.induct)
  case (1 W k p regions valid kr ka r a)
  note step = NextScan_merge.simps [of W k p regions valid kr ka r a]
  let ?mr = "\<lparr>base_address = base_address (regions ! r), length_mr = length_mr (regions ! r),
              data = []\<rparr>"
  show ?case
  proof (cases "r < length regions \<and> a < length valid")
    case False
    with "1.prems" show ?thesis by (simp add: step)
  next
    case True
    show ?thesis
    proof (cases "ContainsAddress (regions ! r) (valid ! a)")
      case c: False
      from True c "1.prems"
      have "NextScan_merge W k p regions valid kr ka (r + 1) a = Inl e" by (simp add: step)
      from "1.IH"(1) [OF True c this] show ?thesis .
    next
      case c: True
      then have c': "\<not> \<not> ContainsAddress (regions ! r) (valid ! a)" by simp
      show ?thesis
      proof (cases "ReadRegionData p ?mr")
        case (Inl e')
        with True c "1.prems" have "e = e'" by (simp add: step)
        with ReadRegionData_error [OF Inl] show ?thesis by auto
      next
        case (Inr x)
        obtain n nr p1 where x: "x = (n, nr, p1)" by (metis surj_pair)
        show ?thesis
        proof (cases "NextScan_addresses W k (regions ! r) nr valid ka a False")
          case (Inl e')
          with True c Inr x "1.prems" have "e = e'" by (simp add: step)
          with NextScan_addresses_error [OF Inl] show ?thesis by simp
        next
          case ad: (Inr y)
          obtain v1 ka1 a1 f where y: "y = (v1, ka1, a1, f)" by (metis surj_pair)
          show ?thesis
          proof (cases f)
            case f: True
            from True c Inr x ad y f "1.prems"
            have "NextScan_merge W k p1
                    (let regions' = regions[r := nr]
                     in if kr \<noteq> r then swap regions' kr r else regions')
                    v1 (kr + 1) ka1 (r + 1) a1 = Inl e"
              by (simp add: step)
            from "1.IH"(2) [OF True c' Inr [unfolded x] refl refl ad [unfolded y] refl refl refl f this]
            show ?thesis .
          next
            case f: False
            from True c Inr x ad y f "1.prems"
            have "NextScan_merge W k p1 regions v1 kr ka1 (r + 1) a1 = Inl e"
              by (simp add: step)
            from "1.IH"(3) [OF True c' Inr [unfolded x] refl refl ad [unfolded y] refl refl refl f this]
            show ?thesis .
          qed
        qed
      qed
    qed
  qed
qed

lemma NextScan_never_ShortRead:
  "NextScan W k p regions \<noteq> Inl ShortRead"
  "NextScan_restricted W k p regions valid \<noteq> Inl ShortRead"
  by (auto simp: NextScan_def NextScan_restricted_def split: sum.splits
        dest: NextScan_regions_error NextScan_merge_error)

lemma later_not_contained:
  assumes sb: "span_before (region_span mr) (region_span m)"
    and cx: "ContainsAddress m x" and le: "x \<le> y"
  shows "\<not> ContainsAddress mr y"
proof
  assume cy: "ContainsAddress mr y"
  from ContainsAddress_byte_range [OF cx]
  have x: "unat (base_address m) \<le> unat x" "unat x < unat (base_address m) + unat (length_mr m)"
    by (simp_all add: byte_range_def span_range_def region_span_def)
  from ContainsAddress_byte_range [OF cy]
  have y: "unat (base_address mr) \<le> unat y" "unat y < unat (base_address mr) + unat (length_mr mr)"
    by (simp_all add: byte_range_def span_range_def region_span_def)
  from sb have lt: "unat (base_address mr) < unat (base_address m)"
    and disj: "span_range (region_span mr) \<inter> span_range (region_span m) = {}"
    by (simp_all add: span_before_def region_span_def word_less_nat_alt)
  from le have "unat x \<le> unat y" by (simp add: word_le_nat_alt)
  with x y lt have "unat (base_address m) \<in> span_range (region_span mr)"
    by (simp add: span_range_def region_span_def)
  moreover from x have "unat (base_address m) \<in> span_range (region_span m)"
    by (simp add: span_range_def region_span_def)
  ultimately show False using disj by blast
qed

lemma not_in_both:
  assumes "span_before (region_span mr) (region_span m)" and "ContainsAddress mr x"
  shows "\<not> ContainsAddress m x"
  using later_not_contained [OF assms(1) _ order_refl] assms(2) by blast

lemma merge_kept_exact:
  "session_ascending R \<Longrightarrow> sorted_wrt (<) A \<Longrightarrow> covered R A \<Longrightarrow>
   fst (merge_kept W k p R A) = map (refreshed p) (filter (has_survivor W k p A) R)
   \<and> snd (merge_kept W k p R A) = filter (survives W k p R) A"
proof (induction W k p R A rule: merge_kept.induct)
  case (1 W k p A)
  then show ?case by (simp add: survives_def)
next
  case (2 W k p mr R)
  then show ?case by (simp add: has_survivor_def)
next
  case (3 W k p mr R x A)
  let ?C = "ContainsAddress mr"
  from "3.prems"(1) have asc: "session_ascending R"
    and sb: "\<forall>m\<in>set R. span_before (region_span mr) (region_span m)"
    by (simp_all add: session_ascending_Cons)
  from "3.prems"(2) have sA: "sorted_wrt (<) A" and xlt: "\<forall>y\<in>set A. x < y" by simp_all
  show ?case
  proof (cases "?C x")
    case False
    from "3.prems"(3) False obtain m where m: "m \<in> set R" "ContainsAddress m x"
      by (auto simp: covered_def)
    have none: "\<not> ?C y" if "y \<in> set (x # A)" for y
    proof -
      from that xlt have "x \<le> y" by auto
      with sb m later_not_contained [of mr m x y] show ?thesis by blast
    qed
    then have cov: "covered R (x # A)"
      using "3.prems"(3) unfolding covered_def by (metis set_ConsD)
    have hs: "\<not> has_survivor W k p (x # A) mr"
      using none by (auto simp: has_survivor_def)
    have sv: "survives W k p (mr # R) y = survives W k p R y" if "y \<in> set (x # A)" for y
      using none [OF that] by (auto simp: survives_def)
    from "3.IH"(1) [OF _ asc "3.prems"(2) cov] False
    have ih: "fst (merge_kept W k p R (x # A)) = map (refreshed p) (filter (has_survivor W k p (x # A)) R)"
      "snd (merge_kept W k p R (x # A)) = filter (survives W k p R) (x # A)"
      by simp_all
    have "filter (survives W k p (mr # R)) (x # A) = filter (survives W k p R) (x # A)"
      by (rule filter_cong [OF refl]) (rule sv)
    with False hs ih show ?thesis by simp
  next
    case True
    define ins where "ins = x # takeWhile ?C A"
    define outs where "outs = dropWhile ?C A"
    have split: "x # A = ins @ outs" by (simp add: ins_def outs_def)
    have ins_in: "?C y" if "y \<in> set ins" for y
      using that True by (auto simp: ins_def dest: set_takeWhileD)
    have outs_out: "\<not> ?C y" if "y \<in> set outs" for y
    proof (cases outs)
      case Nil
      with that show ?thesis by simp
    next
      case (Cons z zs)
      have z: "\<not> ?C z" using Cons hd_dropWhile [of ?C A] by (auto simp: outs_def)
      have zA: "z \<in> set A" using Cons set_dropWhileD [of z ?C A] by (simp add: outs_def)
      with "3.prems"(3) z obtain m where m: "m \<in> set R" "ContainsAddress m z"
        by (auto simp: covered_def)
      have "sorted_wrt (<) outs" 
        using sA sorted_wrt_append [of "(<)" "takeWhile ?C A" "dropWhile ?C A"]
        by (simp add: outs_def)
      with Cons that have "z \<le> y" by auto
      with sb m later_not_contained [of mr m z y] show ?thesis by blast
    qed
    have ins_only: "\<not> ContainsAddress m y" if "y \<in> set ins" "m \<in> set R" for y m
      using sb that ins_in [of y] not_in_both [of mr m y] by blast
    have cov: "covered R outs"
      unfolding covered_def
    proof
      fix y assume y: "y \<in> set outs"
      then have "y \<in> set (x # A)" by (simp add: split)
      with "3.prems"(3) obtain m where "m \<in> set (mr # R)" "ContainsAddress m y"
        unfolding covered_def by blast
      with outs_out [OF y] show "\<exists>m\<in>set R. ContainsAddress m y" by auto
    qed
    have so: "sorted_wrt (<) outs"
      using sA sorted_wrt_append [of "(<)" "takeWhile ?C A" "dropWhile ?C A"]
      by (simp add: outs_def)
    from "3.IH"(2) [OF _ refl asc so [unfolded outs_def] cov [unfolded outs_def]] True
    have ih: "fst (merge_kept W k p R outs) = map (refreshed p) (filter (has_survivor W k p outs) R)"
      "snd (merge_kept W k p R outs) = filter (survives W k p R) outs"
      by (simp_all add: outs_def)
    have mk: "merge_kept W k p (mr # R) (x # A) =
                ((if filter (passes W k p mr) ins = [] then [] else [refreshed p mr])
                   @ fst (merge_kept W k p R outs),
                 filter (passes W k p mr) ins @ snd (merge_kept W k p R outs))"
      using True by (simp add: Let_def ins_def outs_def)
    have f_ins: "filter (survives W k p (mr # R)) ins = filter (passes W k p mr) ins"
      by (rule filter_cong [OF refl]) (use ins_in ins_only in \<open>auto simp: survives_def\<close>)
    have f_outs: "filter (survives W k p (mr # R)) outs = filter (survives W k p R) outs"
      by (rule filter_cong [OF refl]) (use outs_out in \<open>auto simp: survives_def\<close>)
    have hs_R: "filter (has_survivor W k p (x # A)) R = filter (has_survivor W k p outs) R"
      by (rule filter_cong [OF refl]) (use ins_only in \<open>auto simp: has_survivor_def split\<close>)
    have hs_mr: "has_survivor W k p (x # A) mr \<longleftrightarrow> filter (passes W k p mr) ins \<noteq> []"
      unfolding has_survivor_def split filter_empty_conv
      using ins_in outs_out by auto
    have addrs: "filter (survives W k p (mr # R)) (x # A) =
                   filter (passes W k p mr) ins @ filter (survives W k p R) outs"
      unfolding split by (simp add: f_ins f_outs)
    have regs: "filter (has_survivor W k p (x # A)) (mr # R) =
                  (if filter (passes W k p mr) ins = [] then [] else [mr])
                    @ filter (has_survivor W k p outs) R"
      by (simp add: hs_mr hs_R)
    show ?thesis
      unfolding mk addrs regs by (simp add: ih)
  qed
qed

lemma NextScan_restricted_exact:
  assumes "NextScan_restricted W k p regions valid = Inr (rs, v, p')"
    and "session_ascending regions" and "sorted_wrt (<) valid" and "covered regions valid"
  shows "rs = map (refreshed p) (filter (has_survivor W k p valid) regions)
         \<and> v = filter (survives W k p regions) valid"
  using NextScan_restricted_Inr [OF assms(1)] merge_kept_exact [OF assms(2-4), of W k p]
  by simp

subsection \<open>Concrete runs\<close>

lemma example_NextScan:
  "NextScan 4 (equals_int32 5)
       (example_process [(0x1000, int32_slots [5, 7, 5, 9]), (0x2000, int32_slots [1, 2, 3, 4])])
       [example_region 0x1000 [5, 7, 5, 9], example_region 0x2000 [1, 2, 3, 4]]
     = Inr ([0x1000, 0x1008], [example_region 0x1000 [5, 7, 5, 9]],
            (example_process [(0x1000, int32_slots [5, 7, 5, 9]), (0x2000, int32_slots [1, 2, 3, 4])])
              \<lparr>reads := [(0x1000, 16), (0x2000, 16)]\<rparr>)"
  by (simp add: eval_defs)

lemma example_restricted:
  "NextScan_restricted 4 (equals_int32 5)
       (example_process [(0x1000, int32_slots [5, 7, 9, 9]), (0x2000, int32_slots [1, 2, 3, 4])])
       [example_region 0x1000 [5, 7, 5, 9], example_region 0x2000 [1, 2, 3, 4]] [0x1000, 0x1008]
     = Inr ([example_region 0x1000 [5, 7, 9, 9]], [0x1000],
            (example_process [(0x1000, int32_slots [5, 7, 9, 9]), (0x2000, int32_slots [1, 2, 3, 4])])
              \<lparr>reads := [(0x1000, 16)]\<rparr>)"
  by (simp add: eval_defs)

lemma example_restricted_drop:
  "NextScan_restricted 4 (equals_int32 5) (example_process [(0x1000, int32_slots [2, 7, 2, 2])])
       [example_region 0x1000 [5, 7, 9, 9]] [0x1000]
     = Inr ([], [], (example_process [(0x1000, int32_slots [2, 7, 2, 2])])\<lparr>reads := [(0x1000, 16)]\<rparr>)"
  by (simp add: eval_defs)

lemma example_InitialScan:
  "InitialScan (Suc (Suc (Suc (Suc (Suc 0))))) example_layout
     = Some (Inr ([\<lparr>base_address = 0x10000, length_mr = 0x1000, data = replicate 4096 0\<rparr>,
                   \<lparr>base_address = 0x13000, length_mr = 0x1000, data = replicate 4096 0\<rparr>],
                  example_layout\<lparr>reads := [(0x10000, 4096), (0x13000, 4096)]\<rparr>))"
  by (simp add: InitialScan_def VirtualQueryEx_def example_layout_def ReadRegionData_def
        ReadProcessMemory_def Let_def MEM_COMMIT_def PAGE_READWRITE_def
        PAGE_EXECUTE_READWRITE_def ERROR_INVALID_PARAMETER_def ERROR_PARTIAL_COPY_def)

lemma example_enumerated:
  "ascending (map info_span (enumerated (Suc (Suc (Suc (Suc (Suc 0))))) example_layout 0))"
  by (simp add: VirtualQueryEx_def example_layout_def order_defs)

lemma example_session_ascending:
  "session_ascending [example_region 0x1000 vs, example_region 0x2000 ws]"
  by (simp add: order_defs)

subsection \<open>The claims\<close>

text \<open>
  Claim C1 (fails on the code). A refinement call whose read of a region obtains fewer
  bytes than the region's length should fail with \<open>ShortRead\<close>. Here the read of the 16
  byte region at \<open>0x1000\<close> reports a partial copy after 8 bytes: both forms of \<open>NextScan\<close>
  return normally, having compared the stored slots with the 8 bytes read and 8 zeros.
  (By \<open>NextScan_never_ShortRead\<close> neither form fails with \<open>ShortRead\<close> on any input;
  \<open>InitialScan\<close> and \<open>ReRead\<close> do compare the number of bytes read.)
\<close>

theorem NextScan_short_read_returns:
  "length (obtained (partial_copy_process (int32_slots [5, 7])) 0x1000 16) = 8
   \<and> NextScan 4 (equals_int32 5) (partial_copy_process (int32_slots [5, 7]))
         [example_region 0x1000 [5, 7, 5, 9]]
       = Inr ([0x1000], [example_region 0x1000 [5, 7, 0, 0]],
              (partial_copy_process (int32_slots [5, 7]))\<lparr>reads := [(0x1000, 16)]\<rparr>)
   \<and> NextScan_restricted 4 (equals_int32 5) (partial_copy_process (int32_slots [5, 7]))
         [example_region 0x1000 [5, 7, 5, 9]] [0x1000, 0x1008]
       = Inr ([example_region 0x1000 [5, 7, 0, 0]], [0x1000],
              (partial_copy_process (int32_slots [5, 7]))\<lparr>reads := [(0x1000, 16)]\<rparr>)"
  by (simp add: eval_defs obtained_def)

text \<open>
  Claim C2 (as stated it fails). The restricted \<open>NextScan\<close> with no valid address leaves
  the session unchanged: at a session of one region the call returns the empty session.
\<close>

theorem NextScan_restricted_empty_counterexample:
  "NextScan_restricted 4 (equals_int32 5) (example_process [(0x1000, int32_slots [5, 7, 5, 9])])
       [example_region 0x1000 [5, 7, 5, 9]] []
     \<noteq> Inr ([example_region 0x1000 [5, 7, 5, 9]], [],
            example_process [(0x1000, int32_slots [5, 7, 5, 9])])"
  by (simp add: eval_defs)

text \<open>
  Claim C2, amended. The restricted \<open>NextScan\<close> with no valid address leaves the valid
  addresses empty, removes every region from the session, and reads no memory (the process
  and its log of reads are as before).
\<close>

theorem NextScan_restricted_empty:
  "NextScan_restricted W keep_if p regions [] = Inr ([], [], p)"
  by (simp add: NextScan_restricted_def NextScan_merge_exit resize_def)

text \<open>
  Claim C3. A session of one region at \<open>0x1000\<close> with the four \<open>int32_t\<close> slots
  5, 7, 5, 9; the fresh read returns the same bytes; the filter keeps a slot iff its current
  value is 5. The unrestricted \<open>NextScan\<close> returns exactly the addresses \<open>0x1000\<close> and
  \<open>0x1008\<close>, and the session afterwards is that region with the freshly read bytes.
\<close>

theorem NextScan_scenario:
  assumes "\<not> hard_error p 0x1000 16"
    and "obtained p 0x1000 16 = int32_slots [5, 7, 5, 9]"
    and "\<forall>prev current. keep_if prev current \<longleftrightarrow> int32_of current = 5"
  shows "NextScan 4 keep_if p [example_region 0x1000 [5, 7, 5, 9]] =
           Inr ([0x1000, 0x1008], [example_region 0x1000 [5, 7, 5, 9]],
                p\<lparr>reads := reads p @ [(0x1000, 16)]\<rparr>)"
proof -
  let ?mr = "example_region 0x1000 [5, 7, 5, 9]"
  have rd: "\<forall>mr\<in>set [?mr]. readable p mr \<and> unat (length_mr mr) \<le> length (data mr)"
    using assms(1) by (simp add: readable_def example_region_def int32_slots_def)
  have fb: "fresh_buffer p ?mr = int32_slots [5, 7, 5, 9]"
    using assms(2) by (simp add: fresh_buffer_def example_region_def Let_def int32_slots_def)
  have upt: "[0..<4] = [0, 1, 2, Suc 2]" by (simp add: upt_rec)
  have m: "matches 4 keep_if p ?mr = [0x1000, 0x1008]"
    unfolding matches_def fb
    by (simp add: example_region_def int32_slots_def slot_at_def assms(3) int32_of_def upt)
  have rf: "refreshed p ?mr = ?mr"
    by (simp add: refreshed_def fb) (simp add: example_region_def)
  show ?thesis
    unfolding NextScan_succeeds [OF rd] by (simp add: m rf) (simp add: read_of_def example_region_def)
qed

theorem NextScan_scenario_witness:
  "NextScan 4 (equals_int32 5) (example_process [(0x1000, int32_slots [5, 7, 5, 9])])
       [example_region 0x1000 [5, 7, 5, 9]]
     = Inr ([0x1000, 0x1008], [example_region 0x1000 [5, 7, 5, 9]],
            (example_process [(0x1000, int32_slots [5, 7, 5, 9])])\<lparr>reads := [(0x1000, 16)]\<rparr>)"
proof -
  let ?p = "example_process [(0x1000, int32_slots [5, 7, 5, 9])]"
  have h1: "\<not> hard_error ?p 0x1000 16"
    by (simp add: hard_error_def example_process_def)
  have h2: "obtained ?p 0x1000 16 = int32_slots [5, 7, 5, 9]"
    by (simp add: obtained_def example_process_def int32_slots_def)
  have h3: "\<forall>prev current. equals_int32 5 prev current \<longleftrightarrow> int32_of current = 5"
    by (simp add: equals_int32_def)
  from NextScan_scenario [OF h1 h2 h3] show ?thesis
    by (simp add: example_process_def)
qed

text \<open>
  Claim C4. When the region enumeration of the process yields its regions in ascending
  order, the session that \<open>InitialScan\<close> returns is ascending (base addresses strictly
  ascending, no two byte ranges overlapping); and a session that is ascending before a
  call of either \<open>NextScan\<close> is ascending after it.
\<close>

theorem session_stays_ascending:
  "(InitialScan fuel p = Some (Inr (regions, p')) \<and>
      ascending (map info_span (enumerated fuel p 0)) \<longrightarrow> session_ascending regions)
   \<and> (session_ascending session \<and> NextScan W keep_if q session = Inr (valid_addresses, session', q')
        \<longrightarrow> session_ascending session')
   \<and> (session_ascending session \<and>
      NextScan_restricted W keep_if q session candidates = Inr (session'', candidates', q'')
        \<longrightarrow> session_ascending session'')"
proof (intro conjI impI)
  assume "InitialScan fuel p = Some (Inr (regions, p')) \<and>
      ascending (map info_span (enumerated fuel p 0))"
  then show "session_ascending regions" by (auto intro: InitialScan_ascending)
next
  assume a: "session_ascending session \<and> NextScan W keep_if q session = Inr (valid_addresses, session', q')"
  with NextScan_Inr [of W keep_if q session valid_addresses session' q']
  have "session' = map (refreshed q) (filter (\<lambda>mr. matches W keep_if q mr \<noteq> []) session)" by simp
  then have "map region_span session' =
             filter (\<lambda>s. True) (map region_span (filter (\<lambda>mr. matches W keep_if q mr \<noteq> []) session))"
    by (simp add: comp_def)
  then have "subseq (map region_span session') (map region_span session)"
    by (simp add: subseq_map)
  with a show "session_ascending session'"
    unfolding session_ascending_def ascending_def by (auto elim: sorted_wrt_subseq)
next
  assume a: "session_ascending session \<and>
      NextScan_restricted W keep_if q session candidates = Inr (session'', candidates', q'')"
  with NextScan_restricted_Inr [of W keep_if q session candidates session'' candidates' q'']
    merge_kept_regions [of session W keep_if q candidates]
  obtain kept where k: "subseq kept session" "session'' = map (refreshed q) kept" by auto
  then have "map region_span session'' = map region_span kept" by (simp add: comp_def)
  with k(1) have "subseq (map region_span session'') (map region_span session)"
    by (simp add: subseq_map)
  with a show "session_ascending session''"
    unfolding session_ascending_def ascending_def by (auto elim: sorted_wrt_subseq)
qed

theorem session_stays_ascending_witness:
  "ascending (map info_span (enumerated (Suc (Suc (Suc (Suc (Suc 0))))) example_layout 0))
   \<and> session_ascending [\<lparr>base_address = 0x10000, length_mr = 0x1000, data = replicate 4096 0\<rparr>,
                          \<lparr>base_address = 0x13000, length_mr = 0x1000, data = replicate 4096 0\<rparr>]
   \<and> session_ascending [example_region 0x1000 [5, 7, 5, 9], example_region 0x2000 [1, 2, 3, 4]]
   \<and> session_ascending [example_region 0x1000 [5, 7, 5, 9]]
   \<and> session_ascending [example_region 0x1000 [5, 7, 9, 9]]"
proof -
  note pre = example_session_ascending [of "[5, 7, 5, 9]" "[1, 2, 3, 4]"]
  from session_stays_ascending [where fuel = "Suc (Suc (Suc (Suc (Suc 0))))" and p = example_layout
      and W = 4 and keep_if = "equals_int32 5"
      and session = "[example_region 0x1000 [5, 7, 5, 9], example_region 0x2000 [1, 2, 3, 4]]"
      and q = "example_process [(0x1000, int32_slots [5, 7, 5, 9]), (0x2000, int32_slots [1, 2, 3, 4])]",
      THEN conjunct1] example_InitialScan example_enumerated
  have a: "session_ascending [\<lparr>base_address = 0x10000, length_mr = 0x1000, data = replicate 4096 0\<rparr>,
                          \<lparr>base_address = 0x13000, length_mr = 0x1000, data = replicate 4096 0\<rparr>]"
    by blast
  from session_stays_ascending [where W = 4 and keep_if = "equals_int32 5"
      and session = "[example_region 0x1000 [5, 7, 5, 9], example_region 0x2000 [1, 2, 3, 4]]"
      and q = "example_process [(0x1000, int32_slots [5, 7, 5, 9]), (0x2000, int32_slots [1, 2, 3, 4])]",
      THEN conjunct2, THEN conjunct1] example_NextScan pre
  have b: "session_ascending [example_region 0x1000 [5, 7, 5, 9]]" by blast
  from session_stays_ascending [where W = 4 and keep_if = "equals_int32 5"
      and session = "[example_region 0x1000 [5, 7, 5, 9], example_region 0x2000 [1, 2, 3, 4]]"
      and q = "example_process [(0x1000, int32_slots [5, 7, 9, 9]), (0x2000, int32_slots [1, 2, 3, 4])]"
      and candidates = "[0x1000, 0x1008]",
      THEN conjunct2, THEN conjunct2] example_restricted pre
  have c: "session_ascending [example_region 0x1000 [5, 7, 9, 9]]" by blast
  from a b c pre example_enumerated show ?thesis by blast
qed

text \<open>
  Claim C5. When the valid addresses are strictly ascending before a restricted
  \<open>NextScan\<close>, then after the call they are strictly ascending, without duplicates, and
  each of them was among the valid addresses before the call.
\<close>

theorem NextScan_restricted_candidates:
  assumes "NextScan_restricted W keep_if p regions valid_addresses = Inr (regions', valid_addresses', p')"
    and "sorted_wrt (<) valid_addresses"
  shows "sorted_wrt (<) valid_addresses' \<and> distinct valid_addresses'
         \<and> set valid_addresses' \<subseteq> set valid_addresses"
proof -
  from NextScan_restricted_Inr [OF assms(1)] merge_kept_addresses
  have sub: "subseq valid_addresses' valid_addresses" by simp
  from sub assms(2) have s: "sorted_wrt (<) valid_addresses'" by (rule sorted_wrt_subseq)
  moreover from s have "distinct valid_addresses'" by (simp add: strict_sorted_iff)
  moreover from sub have "set valid_addresses' \<subseteq> set valid_addresses"
    by (auto dest: list_emb_set)
  ultimately show ?thesis by simp
qed

theorem NextScan_restricted_candidates_witness:
  "sorted_wrt (<) [0x1000, 0x1008 :: IntPtr]
   \<and> sorted_wrt (<) [0x1000 :: IntPtr] \<and> distinct [0x1000 :: IntPtr]
   \<and> set [0x1000 :: IntPtr] \<subseteq> set [0x1000, 0x1008]"
proof -
  have h: "sorted_wrt (<) [0x1000, 0x1008 :: IntPtr]" by simp
  from NextScan_restricted_candidates [OF example_restricted h] h show ?thesis by blast
qed

text \<open>
  Claim C6. For an ascending session whose regions lie in the address space, the
  unrestricted \<open>NextScan\<close> returns exactly the slot addresses \<open>base + i * W\<close>
  (\<open>i < length / W\<close>, over the regions of the session) at which the filter holds of the
  stored slot and the freshly read slot, as a strictly ascending list. The call returns
  whenever every region can be read and holds its \<open>length\<close> bytes.
\<close>

theorem NextScan_addresses_exact:
  assumes "session_ascending regions"
    and "\<forall>mr\<in>set regions. in_address_space mr"
  shows "(NextScan W keep_if p regions = Inr (valid_addresses, regions', p') \<longrightarrow>
            set valid_addresses =
              {base_address mr + of_nat (i * W) | mr i.
                 mr \<in> set regions \<and> i < unat (length_mr mr) div W \<and>
                 keep_if (slot_at W (data mr) i) (slot_at W (fresh_buffer p mr) i)}
            \<and> sorted_wrt (<) valid_addresses)
         \<and> ((\<forall>mr\<in>set regions. readable p mr \<and> unat (length_mr mr) \<le> length (data mr)) \<longrightarrow>
            (\<exists>res. NextScan W keep_if p regions = Inr res))"
proof (intro conjI impI)
  assume r: "NextScan W keep_if p regions = Inr (valid_addresses, regions', p')"
  from NextScan_Inr [OF r]
  have v: "valid_addresses = concat (map (matches W keep_if p) regions)" by simp
  have "set valid_addresses = (\<Union>mr\<in>set regions. set (matches W keep_if p mr))"
    by (simp add: v)
  also have "\<dots> = {base_address mr + of_nat (i * W) | mr i.
              mr \<in> set regions \<and> i < unat (length_mr mr) div W \<and>
              keep_if (slot_at W (data mr) i) (slot_at W (fresh_buffer p mr) i)}"
    unfolding set_matches by blast
  finally show "set valid_addresses =
              {base_address mr + of_nat (i * W) | mr i.
                 mr \<in> set regions \<and> i < unat (length_mr mr) div W \<and>
                 keep_if (slot_at W (data mr) i) (slot_at W (fresh_buffer p mr) i)}" .
  from concat_matches_sorted [OF assms] v show "sorted_wrt (<) valid_addresses" by simp
next
  assume "\<forall>mr\<in>set regions. readable p mr \<and> unat (length_mr mr) \<le> length (data mr)"
  from NextScan_succeeds [OF this] show "\<exists>res. NextScan W keep_if p regions = Inr res" by blast
qed

theorem NextScan_addresses_exact_witness:
  "session_ascending [example_region 0x1000 [5, 7, 5, 9], example_region 0x2000 [1, 2, 3, 4]]
   \<and> in_address_space (example_region 0x1000 [5, 7, 5, 9])
   \<and> in_address_space (example_region 0x2000 [1, 2, 3, 4])
   \<and> set [0x1000, 0x1008 :: IntPtr] =
       {base_address mr + of_nat (i * 4) | mr i.
          mr \<in> set [example_region 0x1000 [5, 7, 5, 9], example_region 0x2000 [1, 2, 3, 4]] \<and>
          i < unat (length_mr mr) div 4 \<and>
          equals_int32 5 (slot_at 4 (data mr) i)
            (slot_at 4 (fresh_buffer (example_process [(0x1000, int32_slots [5, 7, 5, 9]),
                                                      (0x2000, int32_slots [1, 2, 3, 4])]) mr) i)}
   \<and> sorted_wrt (<) [0x1000, 0x1008 :: IntPtr]"
proof -
  let ?S = "[example_region 0x1000 [5, 7, 5, 9], example_region 0x2000 [1, 2, 3, 4]]"
  have h1: "session_ascending ?S" by (rule example_session_ascending)
  have h2: "\<forall>mr\<in>set ?S. in_address_space mr"
    by (simp add: in_address_space_def example_region_def)
  from h2 have h3: "in_address_space (example_region 0x1000 [5, 7, 5, 9])"
    "in_address_space (example_region 0x2000 [1, 2, 3, 4])" by simp_all
  from NextScan_addresses_exact [OF h1 h2, THEN conjunct1] example_NextScan h1 h3
  show ?thesis by blast
qed

text \<open>
  Claim C7. In an ascending session, a region whose byte range contains none of the valid
  addresses given to a restricted \<open>NextScan\<close> is absent from the session after the call:
  no region of the session then has its base address, whatever its bytes and the filter.
\<close>

theorem NextScan_restricted_drops_untouched:
  assumes "NextScan_restricted W keep_if p regions valid_addresses = Inr (regions', valid_addresses', p')"
    and "session_ascending regions"
    and "mr \<in> set regions"
    and "\<forall>x\<in>set valid_addresses. unat x \<notin> byte_range mr"
  shows "base_address mr \<notin> base_address ` set regions'"
proof
  assume "base_address mr \<in> base_address ` set regions'"
  then obtain mr' where mr': "mr' \<in> set regions'" "base_address mr' = base_address mr" by auto
  from NextScan_restricted_Inr [OF assms(1)] mr'(1)
  have "mr' \<in> set (fst (merge_kept W keep_if p regions valid_addresses))" by simp
  from merge_kept_witnessed [OF this] obtain m x where
    m: "m \<in> set regions" "mr' = refreshed p m" "x \<in> set valid_addresses" "ContainsAddress m x"
    by auto
  from m(2) mr'(2) have "base_address m = base_address mr" by simp
  from session_ascending_inj [OF assms(2) m(1) assms(3) this] have "m = mr" .
  with m(4) have "unat x \<in> byte_range mr" by (simp add: ContainsAddress_byte_range)
  with m(3) assms(4) show False by auto
qed

theorem NextScan_restricted_drops_untouched_witness:
  "unat (0x1000 :: IntPtr) \<notin> byte_range (example_region 0x2000 [1, 2, 3, 4])
   \<and> unat (0x1008 :: IntPtr) \<notin> byte_range (example_region 0x2000 [1, 2, 3, 4])
   \<and> base_address (example_region 0x2000 [1, 2, 3, 4])
       \<notin> base_address ` set [example_region 0x1000 [5, 7, 9, 9]]"
proof -
  have h2: "session_ascending [example_region 0x1000 [5, 7, 5, 9], example_region 0x2000 [1, 2, 3, 4]]"
    by (rule example_session_ascending)
  have h3: "example_region 0x2000 [1, 2, 3, 4]
              \<in> set [example_region 0x1000 [5, 7, 5, 9], example_region 0x2000 [1, 2, 3, 4]]"
    by simp
  have h4: "\<forall>x\<in>set [0x1000, 0x1008 :: IntPtr]. unat x \<notin> byte_range (example_region 0x2000 [1, 2, 3, 4])"
    by (simp add: byte_range_def span_range_def region_span_def example_region_def)
  from h4 have h5: "unat (0x1000 :: IntPtr) \<notin> byte_range (example_region 0x2000 [1, 2, 3, 4])"
    "unat (0x1008 :: IntPtr) \<notin> byte_range (example_region 0x2000 [1, 2, 3, 4])" by simp_all
  from NextScan_restricted_drops_untouched [OF example_restricted h2 h3 h4] h5
  show ?thesis by blast
qed

text \<open>
  Claim C8. In an ascending session, a region in which the filter fails at every slot that
  the call evaluates is absent from the session afterwards: for the unrestricted
  \<open>NextScan\<close> these are all slots of the region, for the restricted \<open>NextScan\<close> the slots
  of the valid addresses that the region contains.
\<close>

theorem NextScan_drops_unmatched:
  assumes "session_ascending regions" and "mr \<in> set regions"
  shows "(NextScan W keep_if p regions = Inr (valid_addresses, regions', p') \<and>
          (\<forall>i < unat (length_mr mr) div W.
              \<not> keep_if (slot_at W (data mr) i) (slot_at W (fresh_buffer p mr) i))
          \<longrightarrow> base_address mr \<notin> base_address ` set regions')
       \<and> (NextScan_restricted W keep_if p regions candidates = Inr (regions'', candidates', p'') \<and>
          (\<forall>x\<in>set candidates. ContainsAddress mr x \<longrightarrow> \<not> passes W keep_if p mr x)
          \<longrightarrow> base_address mr \<notin> base_address ` set regions'')"
proof (intro conjI impI)
  assume a: "NextScan W keep_if p regions = Inr (valid_addresses, regions', p') \<and>
          (\<forall>i < unat (length_mr mr) div W.
              \<not> keep_if (slot_at W (data mr) i) (slot_at W (fresh_buffer p mr) i))"
  then have none: "matches W keep_if p mr = []" by (simp add: matches_def)
  from a NextScan_Inr [of W keep_if p regions valid_addresses regions' p']
  have rs: "regions' = map (refreshed p) [m \<leftarrow> regions. matches W keep_if p m \<noteq> []]" by simp
  show "base_address mr \<notin> base_address ` set regions'"
  proof
    assume "base_address mr \<in> base_address ` set regions'"
    then obtain m where m: "m \<in> set regions" "matches W keep_if p m \<noteq> []"
      "base_address m = base_address mr"
      unfolding rs by auto
    from session_ascending_inj [OF assms(1) m(1) assms(2) m(3)] m(2) none show False by simp
  qed
next
  assume a: "NextScan_restricted W keep_if p regions candidates = Inr (regions'', candidates', p'') \<and>
          (\<forall>x\<in>set candidates. ContainsAddress mr x \<longrightarrow> \<not> passes W keep_if p mr x)"
  show "base_address mr \<notin> base_address ` set regions''"
  proof
    assume "base_address mr \<in> base_address ` set regions''"
    then obtain mr' where mr': "mr' \<in> set regions''" "base_address mr' = base_address mr" by auto
    from a NextScan_restricted_Inr [of W keep_if p regions candidates regions'' candidates' p''] mr'(1)
    have "mr' \<in> set (fst (merge_kept W keep_if p regions candidates))" by simp
    from merge_kept_witnessed [OF this] obtain m x where
      m: "m \<in> set regions" "mr' = refreshed p m" "x \<in> set candidates" "ContainsAddress m x"
         "passes W keep_if p m x"
      by auto
    from m(2) mr'(2) have "base_address m = base_address mr" by simp
    from session_ascending_inj [OF assms(1) m(1) assms(2) this] have "m = mr" .
    with m(3,4,5) a show False by auto
  qed
qed

theorem NextScan_drops_unmatched_witness:
  "base_address (example_region 0x2000 [1, 2, 3, 4])
       \<notin> base_address ` set [example_region 0x1000 [5, 7, 5, 9]]
   \<and> base_address (example_region 0x1000 [5, 7, 9, 9]) \<notin> base_address ` set ([] :: MemoryRegion list)"
proof -
  let ?p = "example_process [(0x1000, int32_slots [5, 7, 5, 9]), (0x2000, int32_slots [1, 2, 3, 4])]"
  let ?mr = "example_region 0x2000 [1, 2, 3, 4]"
  have h1: "session_ascending [example_region 0x1000 [5, 7, 5, 9], ?mr]"
    by (rule example_session_ascending)
  have h2: "?mr \<in> set [example_region 0x1000 [5, 7, 5, 9], ?mr]" by simp
  have fb: "fresh_buffer ?p ?mr = int32_slots [1, 2, 3, 4]"
    by (simp add: fresh_buffer_def obtained_def example_process_def example_region_def
          int32_slots_def Let_def)
  have four: "i = 0 \<or> i = 1 \<or> i = 2 \<or> i = 3" if "i < 4" for i :: nat
    using that by arith
  have h3: "\<forall>i < unat (length_mr ?mr) div 4.
              \<not> equals_int32 5 (slot_at 4 (data ?mr) i) (slot_at 4 (fresh_buffer ?p ?mr) i)"
    unfolding fb
    by (auto simp: example_region_def dest!: four)
       (simp_all add: equals_int32_def int32_of_def slot_at_def int32_slots_def)
  from NextScan_drops_unmatched [OF h1 h2, THEN conjunct1] example_NextScan h3
  have a: "base_address ?mr \<notin> base_address ` set [example_region 0x1000 [5, 7, 5, 9]]"
    by blast
  let ?q = "example_process [(0x1000, int32_slots [2, 7, 2, 2])]"
  let ?m = "example_region 0x1000 [5, 7, 9, 9]"
  have g1: "session_ascending [?m]" by (simp add: order_defs)
  have g2: "?m \<in> set [?m]" by simp
  have g3: "\<forall>x\<in>set [0x1000 :: IntPtr]. ContainsAddress ?m x \<longrightarrow> \<not> passes 4 (equals_int32 5) ?q ?m x"
    by (simp add: passes_def translated_index_def fresh_buffer_def obtained_def
          example_process_def example_region_def int32_slots_def Let_def equals_int32_def
          int32_of_def slot_at_def)
  from NextScan_drops_unmatched [OF g1 g2, THEN conjunct2] example_restricted_drop g3
  have b: "base_address ?m \<notin> base_address ` set ([] :: MemoryRegion list)"
    by blast
  from a b show ?thesis by blast
qed

text \<open>
  Claim C9. Whatever the filter decides, the regions that a call of \<open>NextScan\<close> leaves in
  the session are, in the same relative order, a subsequence of the regions before the
  call, each with its bytes freshly read: for the unrestricted form exactly the regions
  with a matching slot, for the restricted form the regions it kept. The valid addresses
  after a restricted call are a subsequence of the valid addresses before it. When the
  session is ascending and the valid addresses are strictly ascending and lie in regions
  of the session, the restricted form keeps exactly the regions with a surviving address
  and exactly the surviving addresses.
\<close>

theorem compaction_stable:
  "(NextScan W keep_if p regions = Inr (valid_addresses, regions', p') \<longrightarrow>
      regions' = map (refreshed p) (filter (\<lambda>mr. matches W keep_if p mr \<noteq> []) regions))
   \<and> (NextScan_restricted W keep_if p regions candidates = Inr (regions'', candidates', p'') \<longrightarrow>
      (\<exists>kept. subseq kept regions \<and> regions'' = map (refreshed p) kept)
      \<and> subseq candidates' candidates
      \<and> (session_ascending regions \<and> sorted_wrt (<) candidates \<and> covered regions candidates \<longrightarrow>
           regions'' = map (refreshed p) (filter (has_survivor W keep_if p candidates) regions)
           \<and> candidates' = filter (survives W keep_if p regions) candidates))"
proof (intro conjI impI)
  assume "NextScan W keep_if p regions = Inr (valid_addresses, regions', p')"
  from NextScan_Inr [OF this]
  show "regions' = map (refreshed p) (filter (\<lambda>mr. matches W keep_if p mr \<noteq> []) regions)" by simp
next
  assume a: "NextScan_restricted W keep_if p regions candidates = Inr (regions'', candidates', p'')"
  from NextScan_restricted_Inr [OF a] merge_kept_regions [of regions W keep_if p candidates]
  show "\<exists>kept. subseq kept regions \<and> regions'' = map (refreshed p) kept" by simp
  from NextScan_restricted_Inr [OF a] merge_kept_addresses [of W keep_if p regions candidates]
  show "subseq candidates' candidates" by simp
  assume pre: "session_ascending regions \<and> sorted_wrt (<) candidates \<and> covered regions candidates"
  from pre NextScan_restricted_exact [OF a]
  show "regions'' = map (refreshed p) (filter (has_survivor W keep_if p candidates) regions)"
    and "candidates' = filter (survives W keep_if p regions) candidates"
    by simp_all
qed

theorem compaction_stable_witness:
  "[example_region 0x1000 [5, 7, 5, 9]] =
     map (refreshed (example_process [(0x1000, int32_slots [5, 7, 5, 9]),
                                      (0x2000, int32_slots [1, 2, 3, 4])]))
       (filter (\<lambda>mr. matches 4 (equals_int32 5)
                        (example_process [(0x1000, int32_slots [5, 7, 5, 9]),
                                          (0x2000, int32_slots [1, 2, 3, 4])]) mr \<noteq> [])
          [example_region 0x1000 [5, 7, 5, 9], example_region 0x2000 [1, 2, 3, 4]])
   \<and> (\<exists>kept. subseq kept [example_region 0x1000 [5, 7, 5, 9], example_region 0x2000 [1, 2, 3, 4]]
        \<and> [example_region 0x1000 [5, 7, 9, 9]] =
            map (refreshed (example_process [(0x1000, int32_slots [5, 7, 9, 9]),
                                             (0x2000, int32_slots [1, 2, 3, 4])])) kept)
   \<and> subseq [0x1000 :: IntPtr] [0x1000, 0x1008]
   \<and> covered [example_region 0x1000 [5, 7, 5, 9], example_region 0x2000 [1, 2, 3, 4]]
         [0x1000, 0x1008]
   \<and> [example_region 0x1000 [5, 7, 9, 9]] =
       map (refreshed (example_process [(0x1000, int32_slots [5, 7, 9, 9]),
                                        (0x2000, int32_slots [1, 2, 3, 4])]))
         (filter (has_survivor 4 (equals_int32 5)
                    (example_process [(0x1000, int32_slots [5, 7, 9, 9]),
                                      (0x2000, int32_slots [1, 2, 3, 4])]) [0x1000, 0x1008])
            [example_region 0x1000 [5, 7, 5, 9], example_region 0x2000 [1, 2, 3, 4]])
   \<and> [0x1000 :: IntPtr] =
       filter (survives 4 (equals_int32 5)
                 (example_process [(0x1000, int32_slots [5, 7, 9, 9]),
                                   (0x2000, int32_slots [1, 2, 3, 4])])
                 [example_region 0x1000 [5, 7, 5, 9], example_region 0x2000 [1, 2, 3, 4]])
         [0x1000, 0x1008]"
proof -
  let ?S = "[example_region 0x1000 [5, 7, 5, 9], example_region 0x2000 [1, 2, 3, 4]]"
  let ?p = "example_process [(0x1000, int32_slots [5, 7, 5, 9]), (0x2000, int32_slots [1, 2, 3, 4])]"
  let ?q = "example_process [(0x1000, int32_slots [5, 7, 9, 9]), (0x2000, int32_slots [1, 2, 3, 4])]"
  from compaction_stable [where W = 4 and keep_if = "equals_int32 5" and p = ?p and regions = ?S,
      THEN conjunct1] example_NextScan
  have a: "[example_region 0x1000 [5, 7, 5, 9]] =
     map (refreshed ?p) (filter (\<lambda>mr. matches 4 (equals_int32 5) ?p mr \<noteq> []) ?S)"
    by blast
  have h1: "session_ascending ?S" by (rule example_session_ascending)
  have h2: "sorted_wrt (<) [0x1000, 0x1008 :: IntPtr]" by simp
  have h3: "covered ?S [0x1000, 0x1008]"
    by (simp add: covered_def ContainsAddress_def example_region_def)
  from compaction_stable [where W = 4 and keep_if = "equals_int32 5" and p = ?q and regions = ?S
      and candidates = "[0x1000, 0x1008]", THEN conjunct2] example_restricted h1 h2 h3
  have b: "(\<exists>kept. subseq kept ?S \<and> [example_region 0x1000 [5, 7, 9, 9]] = map (refreshed ?q) kept)
      \<and> subseq [0x1000 :: IntPtr] [0x1000, 0x1008]
      \<and> [example_region 0x1000 [5, 7, 9, 9]] =
          map (refreshed ?q) (filter (has_survivor 4 (equals_int32 5) ?q [0x1000, 0x1008]) ?S)
      \<and> [0x1000 :: IntPtr] = filter (survives 4 (equals_int32 5) ?q ?S) [0x1000, 0x1008]"
    by blast
  from a b h3 show ?thesis by blast
qed

text \<open>
  Claim C10. \<open>MemoryObject::ReRead\<close> of width \<open>W\<close> fails with \<open>ReadFailure\<close> when
  the read reports a hard error (a failure other than the partial copy); without a hard
  error it fails with \<open>ShortRead\<close> when fewer than \<open>W\<close> bytes were obtained, also when
  the read reported a partial copy; it succeeds iff exactly \<open>W\<close> bytes were obtained
  without a hard error, and then the held value is the bytes obtained and the address is
  unchanged.
\<close>

theorem ReRead_outcome:
  "(hard_error p (address obj) W \<longrightarrow>
      ReRead W p obj = Inl (ReadFailure (rpm_last_error (memory p (address obj) W)) (address obj)))
   \<and> (\<not> hard_error p (address obj) W \<and> length (obtained p (address obj) W) < W \<longrightarrow>
      ReRead W p obj = Inl ShortRead)
   \<and> ((\<exists>res. ReRead W p obj = Inr res) \<longleftrightarrow>
      \<not> hard_error p (address obj) W \<and> length (obtained p (address obj) W) = W)
   \<and> (\<forall>obj' p'. ReRead W p obj = Inr (obj', p') \<longrightarrow>
      value_mo obj' = obtained p (address obj) W \<and> address obj' = address obj)"
proof -
  have le: "length (obtained p (address obj) W) \<le> W"
    by (simp add: obtained_def)
  show ?thesis
    using le by (auto simp: ReRead_cases)
qed

theorem ReRead_outcome_witness:
  "ReRead 4 \<lparr>memory = (\<lambda>a n. \<lparr>rpm_ok = False, rpm_last_error = 5, rpm_copied = []\<rparr>),
             query = (\<lambda>a. VQ_Fail 87), reads = []\<rparr>
          \<lparr>address = 0x1000, value_mo = [0, 0, 0, 0]\<rparr> = Inl (ReadFailure 5 0x1000)
   \<and> ReRead 4 \<lparr>memory = (\<lambda>a n. \<lparr>rpm_ok = False, rpm_last_error = 299, rpm_copied = [7, 0]\<rparr>),
               query = (\<lambda>a. VQ_Fail 87), reads = []\<rparr>
          \<lparr>address = 0x1000, value_mo = [0, 0, 0, 0]\<rparr> = Inl ShortRead
   \<and> (\<exists>res. ReRead 4 \<lparr>memory = (\<lambda>a n. \<lparr>rpm_ok = True, rpm_last_error = 0,
                                           rpm_copied = [7, 0, 0, 0]\<rparr>),
                       query = (\<lambda>a. VQ_Fail 87), reads = []\<rparr>
          \<lparr>address = 0x1000, value_mo = [0, 0, 0, 0]\<rparr> = Inr res)"
proof -
  let ?q = "\<lambda>a::IntPtr. VQ_Fail 87"
  let ?obj = "\<lparr>address = 0x1000, value_mo = [0, 0, 0, 0]\<rparr>"
  let ?p1 = "\<lparr>memory = (\<lambda>a n. \<lparr>rpm_ok = False, rpm_last_error = 5, rpm_copied = []\<rparr>),
             query = ?q, reads = []\<rparr>"
  let ?p2 = "\<lparr>memory = (\<lambda>a n. \<lparr>rpm_ok = False, rpm_last_error = 299, rpm_copied = [7, 0]\<rparr>),
             query = ?q, reads = []\<rparr>"
  let ?p3 = "\<lparr>memory = (\<lambda>a n. \<lparr>rpm_ok = True, rpm_last_error = 0, rpm_copied = [7, 0, 0, 0]\<rparr>),
             query = ?q, reads = []\<rparr>"
  have h1: "hard_error ?p1 (address ?obj) 4"
    by (simp add: hard_error_def ERROR_PARTIAL_COPY_def)
  have h2: "\<not> hard_error ?p2 (address ?obj) 4 \<and> length (obtained ?p2 (address ?obj) 4) < 4"
    by (simp add: hard_error_def obtained_def ERROR_PARTIAL_COPY_def)
  have h3: "\<not> hard_error ?p3 (address ?obj) 4 \<and> length (obtained ?p3 (address ?obj) 4) = 4"
    by (simp add: hard_error_def obtained_def)
  from h1 ReRead_outcome [of ?p1 ?obj 4]
  have c1: "ReRead 4 ?p1 ?obj = Inl (ReadFailure 5 0x1000)" by simp
  from h2 ReRead_outcome [of ?p2 ?obj 4]
  have c2: "ReRead 4 ?p2 ?obj = Inl ShortRead" by blast
  from h3 ReRead_outcome [of ?p3 ?obj 4]
  have c3: "\<exists>res. ReRead 4 ?p3 ?obj = Inr res" by blast
  from c1 c2 c3 show ?thesis by blast
qed

end
